theory Spec2Isabelle
  imports Complex_Main "HOL-Library.Multiset"
begin


section \<open>JavaScript values used by the plugin\<close>

subsection \<open>Strings\<close>

text \<open>
  A JavaScript string is modelled as a \<open>string\<close>; one \<open>char\<close> stands for one UTF-16
  code unit, so \<open>length\<close> is the source's \<open>.length\<close>.
\<close>

text \<open>White space of \<open>String.prototype.trim\<close> and of \<open>\s\<close>, among the code units a \<open>char\<close> has.\<close>

definition is_space :: "char \<Rightarrow> bool" where
  "is_space c = (of_char c \<in> set [9, 10, 11, 12, 13, 32, 160 :: nat])"

definition trim :: "string \<Rightarrow> string" where
  "trim s = rev (dropWhile is_space (rev (dropWhile is_space s)))"

text \<open>\<open>s.includes(t)\<close>.\<close>

fun str_includes :: "string \<Rightarrow> string \<Rightarrow> bool" where
  "str_includes [] t = (t = [])"
| "str_includes (c # s) t = (take (length t) (c # s) = t \<or> str_includes s t)"

text \<open>A string option is truthy when it is present and not empty.\<close>

definition truthy :: "string option \<Rightarrow> bool" where
  "truthy v = (case v of None \<Rightarrow> False | Some s \<Rightarrow> s \<noteq> [])"

text \<open>The decimal rendering of a natural number in a template literal.\<close>

fun show_nat :: "nat \<Rightarrow> string" where
  "show_nat n = (if n < 10 then [char_of (48 + n)] else show_nat (n div 10) @ [char_of (48 + n mod 10)])"

declare show_nat.simps [simp del]

subsection \<open>Numbers\<close>

text \<open>
  Counters are natural numbers (they start at 0 and are only incremented), exact as
  IEEE doubles below \<open>2 ^ 53\<close>.  \<open>fdiv a b\<close> is the double \<open>a / b\<close> of two such counters,
  as a rational: the quotient rounded to a 53-bit significand, ties to even.  With
  \<open>s = fshift a b\<close> the scaled quotient \<open>a * 2 ^ s / b\<close> lies in \<open>[2 ^ 52, 2 ^ 53)\<close>
  (lemma \<open>fshift_normal\<close>), so \<open>fdiv\<close> is within half a unit in the last place of the
  exact quotient (lemma \<open>fdiv_accurate\<close>).
\<close>

fun bit_length :: "nat \<Rightarrow> nat" where
  "bit_length n = (if n = 0 then 0 else Suc (bit_length (n div 2)))"

declare bit_length.simps [simp del]

definition round_half_even :: "nat \<Rightarrow> nat \<Rightarrow> nat" where
  "round_half_even n d =
     (let q = n div d; r = n mod d
      in if 2 * r < d then q else if d < 2 * r then q + 1 else if even q then q else q + 1)"

definition fshift :: "nat \<Rightarrow> nat \<Rightarrow> nat" where
  "fshift a b =
     (let s0 = bit_length b + 52 - bit_length a
      in if b * 2 ^ 52 \<le> a * 2 ^ s0 then s0 else s0 + 1)"

definition fdiv :: "nat \<Rightarrow> nat \<Rightarrow> rat" where
  "fdiv a b =
     (if a = 0 then 0
      else let s = fshift a b in of_nat (round_half_even (a * 2 ^ s) b) / 2 ^ s)"

text \<open>
  \<open>parseFloat(x.toFixed(f))\<close> for \<open>x \<ge> 0\<close>: \<open>toFixed\<close> takes the integer \<open>n\<close> with
  \<open>n / 10 ^ f\<close> nearest to the exact value of the double \<open>x\<close>, the larger one of two;
  the number read back is written here as the decimal \<open>n / 10 ^ f\<close> itself.
\<close>

definition toFixed :: "nat \<Rightarrow> rat \<Rightarrow> rat" where
  "toFixed f x = of_int \<lfloor>x * 10 ^ f + 1 / 2\<rfloor> / 10 ^ f"

subsection \<open>Objects used as dictionaries\<close>

text \<open>
  An array index is a canonical decimal string below \<open>2 ^ 32 - 1\<close> (\<open>0\<close>, or digits that
  do not start with \<open>0\<close>).  The own keys of an object are enumerated, by \<open>Object.values\<close>,
  \<open>Object.entries\<close> and \<open>for ... in\<close>, with the array indices first, in ascending
  numeric order, and the other strings after them, in the order of their creation.  An
  object is the list of its own properties in that order.
\<close>

definition is_digit :: "char \<Rightarrow> bool" where
  "is_digit c = (48 \<le> (of_char c :: nat) \<and> (of_char c :: nat) \<le> 57)"

definition index_value :: "string \<Rightarrow> nat" where
  "index_value s = foldl (\<lambda>n c. 10 * n + (of_char c - 48)) 0 s"

definition is_array_index :: "string \<Rightarrow> bool" where
  "is_array_index s =
     (s \<noteq> [] \<and> list_all is_digit s \<and> (hd s = CHR ''0'' \<longrightarrow> s = ''0'')
      \<and> index_value s < 2 ^ 32 - 1)"

type_synonym 'v js_object = "(string \<times> 'v) list"

definition key_before :: "string \<Rightarrow> string \<Rightarrow> bool" where
  "key_before k k' =
     (is_array_index k \<and> (is_array_index k' \<longrightarrow> index_value k < index_value k'))"

text \<open>Creating a property that the object does not have yet.\<close>

fun obj_insert :: "string \<Rightarrow> 'v \<Rightarrow> 'v js_object \<Rightarrow> 'v js_object" where
  "obj_insert k v [] = [(k, v)]"
| "obj_insert k v ((k', v') # rest) =
     (if key_before k k' then (k, v) # (k', v') # rest else (k', v') # obj_insert k v rest)"

text \<open>\<open>obj[k] = v\<close>: an own property keeps its place.\<close>

definition obj_set :: "string \<Rightarrow> 'v \<Rightarrow> 'v js_object \<Rightarrow> 'v js_object" where
  "obj_set k v obj =
     (if map_of obj k = None then obj_insert k v obj
      else map (\<lambda>(k', v'). if k' = k then (k', v) else (k', v')) obj)"

text \<open>
  \<open>obj[k]\<close> on an object created by \<open>{}\<close>: an own property, else a member inherited
  from \<open>Object.prototype\<close> (a function or an object: a truthy value), else \<open>undefined\<close>.
\<close>

definition object_prototype_keys :: "string list" where
  "object_prototype_keys =
     [''constructor'', ''__defineGetter__'', ''__defineSetter__'', ''hasOwnProperty'',
      ''__lookupGetter__'', ''__lookupSetter__'', ''isPrototypeOf'', ''propertyIsEnumerable'',
      ''toString'', ''valueOf'', ''__proto__'', ''toLocaleString'']"

datatype 'v property = Own 'v | Inherited | Undefined

definition obj_get :: "'v js_object \<Rightarrow> string \<Rightarrow> 'v property" where
  "obj_get obj k =
     (case map_of obj k of
        Some v \<Rightarrow> Own v
      | None \<Rightarrow> if k \<in> set object_prototype_keys then Inherited else Undefined)"

text \<open>
  A \<open>Record<number, number>\<close> whose keys are hours: a small natural number, or \<open>NaN\<close>
  (the value \<open>None\<close>).  The key of a natural number is an array index, so these keys
  are enumerated in ascending order; the key of \<open>NaN\<close> is the string \<open>NaN\<close>, enumerated
  after them.  \<open>num_add k c obj\<close> is \<open>obj[k] = (obj[k] || 0) + c\<close>.
\<close>

definition num_key_before :: "nat option \<Rightarrow> nat option \<Rightarrow> bool" where
  "num_key_before k k' =
     (case k of None \<Rightarrow> False | Some a \<Rightarrow> (case k' of None \<Rightarrow> True | Some b \<Rightarrow> a < b))"

fun num_add :: "nat option \<Rightarrow> nat \<Rightarrow> (nat option \<times> nat) list \<Rightarrow> (nat option \<times> nat) list" where
  "num_add k c [] = [(k, c)]"
| "num_add k c ((k', v) # rest) =
     (if k' = k then (k', v + c) # rest
      else if num_key_before k k' then (k, c) # (k', v) # rest
      else (k', v) # num_add k c rest)"

text \<open>A number that is a natural number or \<open>NaN\<close>, in a template literal.\<close>

definition show_number :: "nat option \<Rightarrow> string" where
  "show_number n = (case n of None \<Rightarrow> ''NaN'' | Some k \<Rightarrow> show_nat k)"

subsection \<open>Dates\<close>

text \<open>
  A \<open>Date\<close> is its time value: a number of milliseconds since the epoch, or \<open>NaN\<close> for
  an invalid date (the value \<open>None\<close>).  \<open>getHours\<close> is the hour of the local time, and
  \<open>NaN\<close> for an invalid date; the offset of the local time zone at a time value is the
  parameter \<open>tz\<close>.  \<open>max_time a b\<close> is \<open>new Date(Math.max(a.getTime(), b.getTime()))\<close>:
  \<open>Math.max\<close> is \<open>NaN\<close> when an argument is.
\<close>

type_synonym date = "int option"

definition getHours :: "(int \<Rightarrow> int) \<Rightarrow> date \<Rightarrow> nat option" where
  "getHours tz d = (case d of None \<Rightarrow> None | Some t \<Rightarrow> Some (nat (((t + tz t) div 3600000) mod 24)))"

definition max_time :: "date \<Rightarrow> date \<Rightarrow> date" where
  "max_time a b = (case a of None \<Rightarrow> None | Some x \<Rightarrow> (case b of None \<Rightarrow> None | Some y \<Rightarrow> Some (max x y)))"

text \<open>\<open>hour >= 0 && hour < 6\<close>: false for \<open>NaN\<close>.\<close>

definition is_night :: "nat option \<Rightarrow> bool" where
  "is_night hour = (case hour of None \<Rightarrow> False | Some h \<Rightarrow> h < 6)"

subsection \<open>Errors\<close>

text \<open>
  The exceptions of the modelled code, one constructor for each place that throws:
  a \<open>TypeError\<close> of the runtime, a rejected \<open>fetch\<close>, the two errors of model
  resolution, a completion request that is not \<open>ok\<close>, a response without a fenced
  block, and an exception of the YAML decoder.
\<close>

datatype error =
    TypeError
  | FetchFailed
  | DiscoveryError
  | NoUsableModel
  | TransportError nat string
  | MissingStructuredBlock
  | DecodeError

section \<open>Data model (src/types.ts)\<close>


text \<open>\<open>MessageSegment\<close> of the SDK: \<open>el.type\<close> and \<open>el.data?.text\<close>.\<close>

record segment =
  seg_type :: string
  seg_text :: "string option"

text \<open>\<open>StoredMessage\<close>; the optional fields are options.\<close>

record message =
  msg_id :: string
  platform :: string
  userId :: string
  username :: string
  content :: string
  timestamp :: date
  messageId :: "string option"
  elements :: "segment list option"

text \<open>
  \<open>UserStats\<close>.  The ratios are numbers with at most two decimals; \<open>emojiStats\<close> and
  \<open>activeHours\<close> are objects used as dictionaries.
\<close>

record userstats =
  stat_userId :: string
  nickname :: string
  messageCount :: nat
  charCount :: nat
  avatar :: "string option"
  lastActive :: date
  replyCount :: nat
  atCount :: nat
  emojiRatio :: rat
  emojiStats :: "nat js_object"
  nightRatio :: rat
  avgChars :: rat
  replyRatio :: rat
  nightMessages :: nat
  activeHours :: "(nat option \<times> nat) list"

text \<open>\<open>BasicStatsResult\<close>.\<close>

record basic_stats =
  userStats :: "userstats js_object"
  totalChars :: nat
  totalEmojiCount :: nat
  allMessagesText :: "string list"

section \<open>Statistics aggregator (src/utils.ts)\<close>

definition getInitialUserStats :: "message \<Rightarrow> userstats" where
  "getInitialUserStats msg =
     \<lparr>stat_userId = userId msg, nickname = username msg, messageCount = 0, charCount = 0,
      avatar = None, lastActive = Some 0, replyCount = 0, atCount = 0, emojiRatio = 0,
      emojiStats = [], nightRatio = 0, avgChars = 0, replyRatio = 0, nightMessages = 0,
      activeHours = map (\<lambda>i. (Some i, 0)) [0..<24]\<rparr>"

text \<open>
  The loop over the segments of one message.  It carries \<open>pureText\<close>, the user's record
  and \<open>totalEmojiCount\<close>.
\<close>

definition emoji_bump :: "nat js_object \<Rightarrow> nat js_object" where
  "emoji_bump es = obj_set ''emoji'' ((case map_of es ''emoji'' of None \<Rightarrow> 0 | Some n \<Rightarrow> n) + 1) es"

fun scan_elements :: "segment list \<Rightarrow> string \<times> userstats \<times> nat \<Rightarrow> string \<times> userstats \<times> nat" where
  "scan_elements [] acc = acc"
| "scan_elements (el # els) (pureText, stat, emojiTotal) =
     scan_elements els
       (if seg_type el = ''text''
          then (pureText @ (case seg_text el of None \<Rightarrow> [] | Some t \<Rightarrow> t), stat, emojiTotal)
        else if seg_type el = ''reply''
          then (pureText, stat\<lparr>replyCount := replyCount stat + 1\<rparr>, emojiTotal)
        else if seg_type el = ''at''
          then (pureText, stat\<lparr>atCount := atCount stat + 1\<rparr>, emojiTotal)
        else if seg_type el = ''face'' \<or> seg_type el = ''image''
          then (pureText, stat\<lparr>emojiStats := emoji_bump (emojiStats stat)\<rparr>, emojiTotal + 1)
        else (pureText, stat, emojiTotal))"

text \<open>
  The body of the loop over the messages.  An empty sender id skips the message.

  \<open>userStats\<close> is created by \<open>{}\<close>, so \<open>userStats[userId]\<close> also finds the members that
  every object inherits from \<open>Object.prototype\<close>.  For a sender id that names one
  (\<open>constructor\<close>, \<open>toString\<close>, ...) the test \<open>!userStats[userId]\<close> is false, no record is
  created, \<open>stat\<close> is the inherited function or object, \<open>stat.lastActive\<close> is
  \<open>undefined\<close>, and \<open>stat.lastActive.getTime()\<close> raises a \<open>TypeError\<close>.

  For every other sender id the record is the one stored under the id, or a new one;
  the updates of the loop body are applied to it, and it is stored under the id (a new
  key takes its place in the enumeration order when the record is created).
\<close>

definition process_message :: "(int \<Rightarrow> int) \<Rightarrow> message \<Rightarrow> basic_stats \<Rightarrow> error + basic_stats" where
  "process_message tz msg st =
     (if userId msg = [] then Inr st
      else case obj_get (userStats st) (userId msg) of
        Inherited \<Rightarrow> Inl TypeError
      | found \<Rightarrow>
         (let stat0 = (case found of Own s \<Rightarrow> s | _ \<Rightarrow> getInitialUserStats msg);
              stat1 = stat0\<lparr>messageCount := messageCount stat0 + 1\<rparr>;
              stat2 = stat1\<lparr>lastActive := max_time (lastActive stat1) (timestamp msg)\<rparr>;
              hour = getHours tz (timestamp msg);
              stat3 = stat2\<lparr>activeHours := num_add hour 1 (activeHours stat2)\<rparr>;
              stat4 = (if is_night hour then stat3\<lparr>nightMessages := nightMessages stat3 + 1\<rparr> else stat3);
              (pureText, stat5, emojiTotal) =
                 scan_elements (case elements msg of None \<Rightarrow> [] | Some els \<Rightarrow> els)
                   ([], stat4, totalEmojiCount st);
              lines = (if pureText \<noteq> []
                       then allMessagesText st @ [username msg @ ''('' @ userId msg @ ''): '' @ trim pureText]
                       else allMessagesText st);
              n = (if length pureText \<noteq> 0 then length pureText else length (content msg));
              stat6 = stat5\<lparr>charCount := charCount stat5 + n\<rparr>
          in Inr \<lparr>userStats = obj_set (userId msg) stat6 (userStats st),
                  totalChars = totalChars st + n,
                  totalEmojiCount = emojiTotal,
                  allMessagesText = lines\<rparr>))"

fun process_messages :: "(int \<Rightarrow> int) \<Rightarrow> message list \<Rightarrow> basic_stats \<Rightarrow> error + basic_stats" where
  "process_messages tz [] st = Inr st"
| "process_messages tz (msg # msgs) st =
     (case process_message tz msg st of
        Inl e \<Rightarrow> Inl e
      | Inr st' \<Rightarrow> process_messages tz msgs st')"

text \<open>The second loop: the ratios of one user, from the final counters.\<close>

definition compute_ratios :: "nat \<Rightarrow> userstats \<Rightarrow> userstats" where
  "compute_ratios totalEmoji stat =
     stat\<lparr>avgChars := (if messageCount stat \<noteq> 0
                       then toFixed 1 (fdiv (charCount stat) (messageCount stat)) else 0),
          nightRatio := (if messageCount stat \<noteq> 0
                         then toFixed 2 (fdiv (nightMessages stat) (messageCount stat)) else 0),
          replyRatio := (if messageCount stat \<noteq> 0
                         then toFixed 2 (fdiv (replyCount stat) (messageCount stat)) else 0),
          emojiRatio := (if messageCount stat \<noteq> 0
                         then toFixed 2 (fdiv totalEmoji (messageCount stat)) else 0)\<rparr>"

definition initial_stats :: basic_stats where
  "initial_stats = \<lparr>userStats = [], totalChars = 0, totalEmojiCount = 0, allMessagesText = []\<rparr>"

definition calculateBasicStats :: "(int \<Rightarrow> int) \<Rightarrow> message list \<Rightarrow> error + basic_stats" where
  "calculateBasicStats tz messages =
     (case process_messages tz messages initial_stats of
        Inl e \<Rightarrow> Inl e
      | Inr st \<Rightarrow>
          Inr (st\<lparr>userStats := map (\<lambda>(k, stat). (k, compute_ratios (totalEmojiCount st) stat))
                                 (userStats st)\<rparr>))"

text \<open>
  \<open>findMostActivePeriod\<close>: the first key with the largest count, by a strict
  comparison; \<open>NaN + 1\<close> is \<open>NaN\<close>.
\<close>

definition findMostActivePeriod :: "(nat option \<times> nat) list \<Rightarrow> string" where
  "findMostActivePeriod hours =
     (let (maxHour, maxCount) =
            foldl (\<lambda>(maxHour, maxCount) (hour, count).
                     if count > maxCount then (hour, count) else (maxHour, maxCount))
                  (Some 0, 0) hours
      in show_number maxHour @ '':00-'' @ show_number (map_option (\<lambda>h. h + 1) maxHour) @ '':00'')"

section \<open>LLM service (src/services/llm.ts)\<close>

text \<open>
  The two fields of \<open>PluginConfig\<close> that the modelled code reads: \<open>llm.model\<close> and
  \<open>analysis.maxUsersInReport\<close>.
\<close>

record plugin_config =
  model :: "string option"
  maxUsersInReport :: int

text \<open>
  The fields of an \<open>LLMService\<close> instance, and a count of the requests sent to the
  model list endpoint (not a field of the source: it records the calls of
  \<open>fetchAvailableModels\<close>).
\<close>

record llm_service =
  availableModels :: "string list"
  resolvedModel :: "string option"
  discoveryCalls :: nat

definition new_llm_service :: llm_service where
  "new_llm_service = \<lparr>availableModels = [], resolvedModel = None, discoveryCalls = 0\<rparr>"

text \<open>
  What a \<open>fetch\<close> gives: a rejection (also of \<open>response.json()\<close>), a status that is
  not \<open>ok\<close> with its body text, or the decoded body.
\<close>

datatype 'b response = Rejected | NotOk nat string | Ok 'b

text \<open>
  The body of the model list: \<open>data.data\<close> when it is an array (else \<open>None\<close>), each
  item by its \<open>id\<close> when that is a string.
\<close>

type_synonym models_body = "string option list option"

text \<open>
  \<open>fetchAvailableModels\<close> sends the request and is suspended at \<open>await fetch(...)\<close>; it
  goes on when the response has arrived (and its body is decoded), and then raises or
  stores the advertised identifiers.  Between the two parts other calls on the instance
  may run.
\<close>

definition fetchAvailableModels_send :: "llm_service \<Rightarrow> llm_service" where
  "fetchAvailableModels_send st = st\<lparr>discoveryCalls := discoveryCalls st + 1\<rparr>"

definition fetchAvailableModels_receive ::
  "models_body response \<Rightarrow> llm_service \<Rightarrow> error option \<times> llm_service" where
  "fetchAvailableModels_receive resp st =
     (case resp of
        Rejected \<Rightarrow> (Some FetchFailed, st)
      | NotOk status body \<Rightarrow> (Some DiscoveryError, st)
      | Ok body \<Rightarrow>
          (None, st\<lparr>availableModels :=
             (case body of None \<Rightarrow> [] | Some items \<Rightarrow> List.map_filter (\<lambda>item. item) items)\<rparr>))"


definition preferred :: "string list" where
  "preferred = [''gpt-4o'', ''gpt-4'', ''gpt-3.5'', ''qwen'', ''glm'', ''moonshot'', ''deepseek'', ''claude'']"

text \<open>The loop over the markers: the first advertised id that includes the marker, if truthy.\<close>

fun first_preferred :: "string list \<Rightarrow> string list \<Rightarrow> string option" where
  "first_preferred [] ids = None"
| "first_preferred (target # targets) ids =
     (if truthy (find (\<lambda>id. str_includes id target) ids)
      then find (\<lambda>id. str_includes id target) ids
      else first_preferred targets ids)"

definition selectModel :: "plugin_config \<Rightarrow> llm_service \<Rightarrow> string option" where
  "selectModel cfg st =
     (if truthy (model cfg) then model cfg
      else if availableModels st = [] then None
      else case first_preferred preferred (availableModels st) of
             Some m \<Rightarrow> Some m
           | None \<Rightarrow> Some (hd (availableModels st)))"

text \<open>
  \<open>resolveModel\<close> is an \<open>async\<close> function; the event loop runs it in parts, and between
  two parts of one call it may run parts of other calls on the same instance.

  \<^item> \<open>resolveModel_start\<close>: from the call to the return, or to the suspension at
    \<open>await this.fetchAvailableModels()\<close>, where the request has been sent (the result
    \<open>None\<close>).
  \<^item> \<open>fetchAvailableModels_receive\<close>: the response has arrived.
  \<^item> \<open>resolveModel_resume\<close>: after the \<open>await\<close>, from \<open>this.selectModel()\<close> to the end.
\<close>

definition resolveModel_resume :: "plugin_config \<Rightarrow> llm_service \<Rightarrow> (error + string) \<times> llm_service" where
  "resolveModel_resume cfg st =
     (if truthy (selectModel cfg st)
      then (Inr (the (selectModel cfg st)), st\<lparr>resolvedModel := selectModel cfg st\<rparr>)
      else (Inl NoUsableModel, st))"

definition resolveModel_start ::
  "plugin_config \<Rightarrow> llm_service \<Rightarrow> (error + string) option \<times> llm_service" where
  "resolveModel_start cfg st =
     (if truthy (resolvedModel st) then (Some (Inr (the (resolvedModel st))), st)
      else if truthy (model cfg) then (Some (Inr (the (model cfg))), st\<lparr>resolvedModel := model cfg\<rparr>)
      else if availableModels st = [] then (None, fetchAvailableModels_send st)
      else (case resolveModel_resume cfg st of (r, st1) \<Rightarrow> (Some r, st1)))"

text \<open>
  A call of \<open>resolveModel\<close> during which no other call on the instance runs: the three
  parts one after the other; \<open>resp\<close> is the response to its request, if it sends one.
\<close>

definition resolveModel :: "plugin_config \<Rightarrow> models_body response \<Rightarrow> llm_service \<Rightarrow> (error + string) \<times> llm_service" where
  "resolveModel cfg resp st =
     (case resolveModel_start cfg st of
        (Some r, st1) \<Rightarrow> (r, st1)
      | (None, st1) \<Rightarrow>
          (case fetchAvailableModels_receive resp st1 of
             (Some e, st2) \<Rightarrow> (Inl e, st2)
           | (None, st2) \<Rightarrow> resolveModel_resume cfg st2))"

text \<open>
  Calls that overlap.  An instance with its calls of \<open>resolveModel\<close>, in the order in
  which they were started: a call waits for the response to its request, or has its
  list stored and waits to be resumed, or has settled (returned or raised).  The event
  loop starts a call, or delivers the response to the request of a waiting call, or
  resumes a call; an event for a call that is not in the state for it changes nothing.
  \<open>play\<close> is a new instance after a sequence of such events.
\<close>

datatype call_state = Fetching | Resuming | Settled "error + string"

record running =
  service :: llm_service
  calls :: "call_state list"

datatype event = Start | Deliver nat "models_body response" | Resume nat

definition fire :: "plugin_config \<Rightarrow> running \<Rightarrow> event \<Rightarrow> running" where
  "fire cfg inst e =
     (case e of
        Start \<Rightarrow>
          (case resolveModel_start cfg (service inst) of
             (None, st) \<Rightarrow> \<lparr>service = st, calls = calls inst @ [Fetching]\<rparr>
           | (Some r, st) \<Rightarrow> \<lparr>service = st, calls = calls inst @ [Settled r]\<rparr>)
      | Deliver n resp \<Rightarrow>
          (if n < length (calls inst) \<and> calls inst ! n = Fetching
           then (case fetchAvailableModels_receive resp (service inst) of
                   (Some err, st) \<Rightarrow> \<lparr>service = st, calls = (calls inst)[n := Settled (Inl err)]\<rparr>
                 | (None, st) \<Rightarrow> \<lparr>service = st, calls = (calls inst)[n := Resuming]\<rparr>)
           else inst)
      | Resume n \<Rightarrow>
          (if n < length (calls inst) \<and> calls inst ! n = Resuming
           then (case resolveModel_resume cfg (service inst) of
                   (r, st) \<Rightarrow> \<lparr>service = st, calls = (calls inst)[n := Settled r]\<rparr>)
           else inst))"

definition play :: "plugin_config \<Rightarrow> event list \<Rightarrow> running" where
  "play cfg es = foldl (fire cfg) \<lparr>service = new_llm_service, calls = []\<rparr> es"

text \<open>
  \<open>requestChatCompletion\<close>.  The completion body is the \<open>content\<close> of the first choice,
  when there is one.
\<close>

definition requestChatCompletion ::
  "plugin_config \<Rightarrow> models_body response \<Rightarrow> string option response \<Rightarrow> llm_service
     \<Rightarrow> (error + string) \<times> llm_service" where
  "requestChatCompletion cfg models_resp completion st =
     (case resolveModel cfg models_resp st of
        (Inl e, st1) \<Rightarrow> (Inl e, st1)
      | (Inr m, st1) \<Rightarrow>
          (case completion of
             Rejected \<Rightarrow> (Inl FetchFailed, st1)
           | NotOk status body \<Rightarrow> (Inl (TransportError status body), st1)
           | Ok c \<Rightarrow> (Inr (case c of None \<Rightarrow> [] | Some t \<Rightarrow> trim t), st1)))"

text \<open>
  The match of \<open>/```ya?ml\s*([\s\S]*?)\s*```/\<close>: the leftmost place where the opening
  fence stands and a closing fence follows; after the white space behind the opening
  fence, the group is the shortest text followed by optional white space and the
  closing fence.
\<close>

definition closes_block :: "string \<Rightarrow> bool" where
  "closes_block r = (take 3 (dropWhile is_space r) = ''```'')"

fun lazy_group :: "string \<Rightarrow> string option" where
  "lazy_group [] = None"
| "lazy_group (c # r) =
     (if closes_block (c # r) then Some [] else map_option ((#) c) (lazy_group r))"

definition match_here :: "string \<Rightarrow> string option" where
  "match_here s =
     (if take 7 s = ''```yaml'' then lazy_group (dropWhile is_space (drop 7 s))
      else if take 6 s = ''```yml'' then lazy_group (dropWhile is_space (drop 6 s))
      else None)"

fun yaml_match :: "string \<Rightarrow> string option" where
  "yaml_match [] = None"
| "yaml_match (c # s) =
     (case match_here (c # s) of Some g \<Rightarrow> Some g | None \<Rightarrow> yaml_match s)"

text \<open>A value decoded from YAML; \<open>YNull\<close> also stands for \<open>undefined\<close>.\<close>

datatype yaml =
    YNull
  | YBool bool
  | YNum rat
  | YStr string
  | YSeq "yaml list"
  | YMap "(string \<times> yaml) list"

text \<open>
  What the modelled code takes from outside: the decoder of the \<open>js-yaml\<close> package
  (\<open>None\<close> when it throws), the repair pass \<open>cleanYamlContent\<close> (a regular-expression
  rewrite of the block's text) and the chart renderer \<open>generateActiveHoursChart\<close> (a
  string of floating-point coordinates); no statement below depends on what they
  return.
\<close>

record env =
  yamlLoad :: "string \<Rightarrow> yaml option"
  cleanYamlContent :: "string \<Rightarrow> string"
  generateActiveHoursChart :: "(nat option \<times> nat) list \<Rightarrow> string"

definition callLLM ::
  "env \<Rightarrow> plugin_config \<Rightarrow> models_body response \<Rightarrow> string option response \<Rightarrow> llm_service
     \<Rightarrow> (error + yaml) \<times> llm_service" where
  "callLLM ev cfg models_resp completion st =
     (case requestChatCompletion cfg models_resp completion st of
        (Inl e, st1) \<Rightarrow> (Inl e, st1)
      | (Inr rawContent, st1) \<Rightarrow>
          (if rawContent = [] then (Inr (YSeq []), st1)
           else case yaml_match rawContent of
                  None \<Rightarrow> (Inl MissingStructuredBlock, st1)
                | Some block \<Rightarrow>
                    (case yamlLoad ev (cleanYamlContent ev block) of
                       None \<Rightarrow> (Inl DecodeError, st1)
                     | Some d \<Rightarrow> (Inr d, st1))))"

text \<open>
  The three extraction operations differ in the prompt they build, and the prompt only
  decides what the endpoint answers, which is a parameter here.  Each is \<open>callLLM\<close>
  followed by \<open>data ?? []\<close>.
\<close>

definition or_empty :: "yaml \<Rightarrow> yaml" where
  "or_empty d = (if d = YNull then YSeq [] else d)"

definition summarizeTopics ::
  "env \<Rightarrow> plugin_config \<Rightarrow> models_body response \<Rightarrow> string option response \<Rightarrow> llm_service
     \<Rightarrow> (error + yaml) \<times> llm_service" where
  "summarizeTopics ev cfg models_resp completion st =
     (case callLLM ev cfg models_resp completion st of (r, st1) \<Rightarrow> (map_sum id or_empty r, st1))"

definition analyzeUserTitles ::
  "env \<Rightarrow> plugin_config \<Rightarrow> models_body response \<Rightarrow> string option response \<Rightarrow> llm_service
     \<Rightarrow> (error + yaml) \<times> llm_service" where
  "analyzeUserTitles ev cfg models_resp completion st =
     (case callLLM ev cfg models_resp completion st of (r, st1) \<Rightarrow> (map_sum id or_empty r, st1))"

definition analyzeGoldenQuotes ::
  "env \<Rightarrow> plugin_config \<Rightarrow> models_body response \<Rightarrow> string option response \<Rightarrow> llm_service
     \<Rightarrow> (error + yaml) \<times> llm_service" where
  "analyzeGoldenQuotes ev cfg models_resp completion st =
     (case callLLM ev cfg models_resp completion st of (r, st1) \<Rightarrow> (map_sum id or_empty r, st1))"

section \<open>Analysis service (src/services/analysis.ts)\<close>

text \<open>\<open>GroupAnalysisResult\<close>.  The three extraction fields hold what the decoder gave.\<close>

record report =
  totalMessages :: nat
  report_totalChars :: nat
  totalParticipants :: nat
  emojiCount :: nat
  mostActiveUser :: "userstats option"
  mostActivePeriod :: string
  report_userStats :: "userstats list"
  topics :: yaml
  userTitles :: yaml
  goldenQuotes :: yaml
  activeHoursChart :: string
  activeHoursData :: "(nat option \<times> nat) list"
  analysisDate :: string
  groupName :: string

text \<open>
  \<open>users.sort((a, b) => b.messageCount - a.messageCount)\<close>: the sort of an array is
  stable, so this is the stable sort by descending message count.
\<close>

definition sort_users :: "userstats list \<Rightarrow> userstats list" where
  "sort_users users = sort_key (\<lambda>u. - int (messageCount u)) users"

text \<open>\<open>xs.slice(0, n)\<close>; a negative \<open>n\<close> counts from the end.\<close>

definition slice0 :: "int \<Rightarrow> 'a list \<Rightarrow> 'a list" where
  "slice0 n xs = (if n < 0 then take (nat (int (length xs) + n)) xs else take (nat n) xs)"

text \<open>The \<open>catch\<close> handler of each of the three tasks.\<close>

definition recover :: "error + yaml \<Rightarrow> yaml" where
  "recover outcome = (case outcome of Inl e \<Rightarrow> YSeq [] | Inr v \<Rightarrow> v)"

text \<open>
  \<open>analyzeGroupMessages\<close>.  The three tasks run interleaved on one \<open>LLMService\<close>; how
  each of their promises settles (rejected with an error, or fulfilled with a value) is
  the parameter \<open>t\<close>, \<open>u\<close>, \<open>q\<close>.  \<open>analyzeUserTitles\<close> sorts the array \<open>users\<close> in place
  before its first suspension, so the loop over \<open>users\<close> and the second sort see the
  sorted array.  \<open>now\<close> is the rendered current date.
\<close>

definition analyzeGroupMessages ::
  "env \<Rightarrow> plugin_config \<Rightarrow> (int \<Rightarrow> int) \<Rightarrow> string \<Rightarrow> message list \<Rightarrow> string
     \<Rightarrow> error + yaml \<Rightarrow> error + yaml \<Rightarrow> error + yaml \<Rightarrow> error + report" where
  "analyzeGroupMessages ev cfg tz now messages groupId t u q =
     (case calculateBasicStats tz messages of
        Inl e \<Rightarrow> Inl e
      | Inr stats \<Rightarrow>
         (let users = sort_users (map snd (userStats stats));
              allActiveHours =
                foldl (\<lambda>acc user. foldl (\<lambda>acc (hour, count). num_add hour count acc) acc (activeHours user))
                      [] users;
              sortedUserStats = slice0 (maxUsersInReport cfg) (sort_users users)
          in Inr \<lparr>totalMessages = length messages,
                  report_totalChars = totalChars stats,
                  totalParticipants = length users,
                  emojiCount = totalEmojiCount stats,
                  mostActiveUser = (case sortedUserStats of [] \<Rightarrow> None | first # _ \<Rightarrow> Some first),
                  mostActivePeriod = findMostActivePeriod allActiveHours,
                  report_userStats = sortedUserStats,
                  topics = recover t,
                  userTitles = recover u,
                  goldenQuotes = recover q,
                  activeHoursChart = generateActiveHoursChart ev allActiveHours,
                  activeHoursData = allActiveHours,
                  analysisDate = now,
                  groupName = groupId\<rparr>))"

section \<open>Recency cache (src/services/storage.ts)\<close>

definition cacheSize :: nat where
  "cacheSize = 1000"

definition cacheKey :: "message \<Rightarrow> string" where
  "cacheKey m = platform m @ ''_'' @ userId m"

text \<open>
  \<open>addToCache\<close>: the key's array (or a fresh one) gets the message in front
  (\<open>unshift\<close>), is cut to its first \<open>cacheSize\<close> entries when longer, and is stored back.
\<close>

definition addToCache :: "message \<Rightarrow> (string \<rightharpoonup> message list) \<Rightarrow> (string \<rightharpoonup> message list)" where
  "addToCache m messageCache =
     (let key = cacheKey m;
          messages0 = (case messageCache key of None \<Rightarrow> [] | Some xs \<Rightarrow> xs);
          messages1 = m # messages0;
          messages2 = (if length messages1 > cacheSize then take cacheSize messages1 else messages1)
      in messageCache(key \<mapsto> messages2))"

text \<open>The cache after a sequence of puts, oldest put first, on a new service instance.\<close>

definition addAllToCache :: "message list \<Rightarrow> (string \<rightharpoonup> message list)" where
  "addAllToCache ms = foldl (\<lambda>c m. addToCache m c) Map.empty ms"

section \<open>Auxiliary definitions for the proofs\<close>

text \<open>The invariant of the loop of puts, for one key.\<close>

definition cache_entry :: "string \<Rightarrow> message list \<Rightarrow> message list option" where
  "cache_entry k ms =
     (let own = filter (\<lambda>m. cacheKey m = k) ms
      in if own = [] then None else Some (take cacheSize (rev own)))"

text \<open>
  A text holds a fenced block when an opening fence \<open>```yaml\<close> or \<open>```yml\<close> is followed,
  anywhere later, by a closing fence.
\<close>

definition has_block :: "string \<Rightarrow> bool" where
  "has_block s =
     (\<exists>pre mid post. s = pre @ ''```yaml'' @ mid @ ''```'' @ post
                    \<or> s = pre @ ''```yml'' @ mid @ ''```'' @ post)"

text \<open>What one message contributes: the segments, the text, the counts, the line.\<close>

definition msg_elements :: "message \<Rightarrow> segment list" where
  "msg_elements m = (case elements m of None \<Rightarrow> [] | Some els \<Rightarrow> els)"

definition pure_text :: "segment list \<Rightarrow> string" where
  "pure_text els =
     concat (map (\<lambda>el. case seg_text el of None \<Rightarrow> [] | Some t \<Rightarrow> t)
                 (filter (\<lambda>el. seg_type el = ''text'') els))"

definition count_type :: "string \<Rightarrow> segment list \<Rightarrow> nat" where
  "count_type ty els = length (filter (\<lambda>el. seg_type el = ty) els)"

definition emoji_count :: "segment list \<Rightarrow> nat" where
  "emoji_count els = length (filter (\<lambda>el. seg_type el = ''face'' \<or> seg_type el = ''image'') els)"

definition msg_chars :: "message \<Rightarrow> nat" where
  "msg_chars m =
     (if pure_text (msg_elements m) = [] then length (content m)
      else length (pure_text (msg_elements m)))"

definition msg_emojis :: "message \<Rightarrow> nat" where
  "msg_emojis m = emoji_count (msg_elements m)"

definition msg_lines :: "message \<Rightarrow> string list" where
  "msg_lines m =
     (if pure_text (msg_elements m) = [] then []
      else [username m @ ''('' @ userId m @ ''): '' @ trim (pure_text (msg_elements m))])"

text \<open>The change of a user's record by one message of that user.\<close>

definition apply_msg :: "(int \<Rightarrow> int) \<Rightarrow> message \<Rightarrow> userstats \<Rightarrow> userstats" where
  "apply_msg tz m s =
     s\<lparr>messageCount := messageCount s + 1,
       lastActive := max_time (lastActive s) (timestamp m),
       activeHours := num_add (getHours tz (timestamp m)) 1 (activeHours s),
       nightMessages := nightMessages s + (if is_night (getHours tz (timestamp m)) then 1 else 0),
       replyCount := replyCount s + count_type ''reply'' (msg_elements m),
       atCount := atCount s + count_type ''at'' (msg_elements m),
       emojiStats := (emoji_bump ^^ msg_emojis m) (emojiStats s),
       charCount := charCount s + msg_chars m\<rparr>"

text \<open>The body of the loop where it does not raise, and the loop of such bodies.\<close>

definition step :: "(int \<Rightarrow> int) \<Rightarrow> message \<Rightarrow> basic_stats \<Rightarrow> basic_stats" where
  "step tz m st =
     (if userId m = [] then st
      else \<lparr>userStats =
               obj_set (userId m)
                 (apply_msg tz m (case map_of (userStats st) (userId m) of
                                    Some s \<Rightarrow> s | None \<Rightarrow> getInitialUserStats m))
                 (userStats st),
             totalChars = totalChars st + msg_chars m,
             totalEmojiCount = totalEmojiCount st + msg_emojis m,
             allMessagesText = allMessagesText st @ msg_lines m\<rparr>)"

definition run :: "(int \<Rightarrow> int) \<Rightarrow> message list \<Rightarrow> basic_stats" where
  "run tz ms = foldl (\<lambda>st m. step tz m st) initial_stats ms"

definition finish :: "basic_stats \<Rightarrow> basic_stats" where
  "finish st =
     st\<lparr>userStats := map (\<lambda>(k, stat). (k, compute_ratios (totalEmojiCount st) stat)) (userStats st)\<rparr>"

definition inherited :: "string \<Rightarrow> bool" where
  "inherited k = (k \<in> set object_prototype_keys)"

text \<open>No own key of the aggregation object names an inherited member.\<close>

definition own_keys_safe :: "basic_stats \<Rightarrow> bool" where
  "own_keys_safe st = (\<forall>k \<in> fst ` set (userStats st). \<not> inherited k)"

text \<open>
  The record of a user after the first loop, from the messages of that user alone:
  \<open>xs\<close> is the list of the user's messages, in the order of the input.
\<close>

definition msg_hour :: "(int \<Rightarrow> int) \<Rightarrow> message \<Rightarrow> nat option" where
  "msg_hour tz m = getHours tz (timestamp m)"

text \<open>
  The messages with an invalid date, and the per-hour counts of a list of messages:
  the 24 hours, and after them the key \<open>NaN\<close> when a message has an invalid date.
\<close>

definition undated :: "message list \<Rightarrow> message list" where
  "undated xs = filter (\<lambda>m. timestamp m = None) xs"

definition hour_counts :: "(int \<Rightarrow> int) \<Rightarrow> message list \<Rightarrow> (nat option \<times> nat) list" where
  "hour_counts tz xs = map (\<lambda>h. (Some h, length (filter (\<lambda>m. msg_hour tz m = Some h) xs))) [0..<24]"

definition user_hours :: "(int \<Rightarrow> int) \<Rightarrow> message list \<Rightarrow> (nat option \<times> nat) list" where
  "user_hours tz xs =
     hour_counts tz xs @ (if undated xs = [] then [] else [(None, length (undated xs))])"

definition user_record :: "(int \<Rightarrow> int) \<Rightarrow> string \<Rightarrow> message list \<Rightarrow> userstats" where
  "user_record tz uid xs =
     \<lparr>stat_userId = uid, nickname = username (hd xs), messageCount = length xs,
      charCount = sum_list (map msg_chars xs), avatar = None,
      lastActive = foldl max_time (Some 0) (map timestamp xs),
      replyCount = sum_list (map (\<lambda>m. count_type ''reply'' (msg_elements m)) xs),
      atCount = sum_list (map (\<lambda>m. count_type ''at'' (msg_elements m)) xs),
      emojiRatio = 0,
      emojiStats = (emoji_bump ^^ sum_list (map msg_emojis xs)) [],
      nightRatio = 0, avgChars = 0, replyRatio = 0,
      nightMessages = length (filter (\<lambda>m. is_night (msg_hour tz m)) xs),
      activeHours = user_hours tz xs\<rparr>"

definition own_messages :: "string \<Rightarrow> message list \<Rightarrow> message list" where
  "own_messages uid ms = filter (\<lambda>m. userId m = uid) ms"

definition erase_nickname :: "userstats \<Rightarrow> userstats" where
  "erase_nickname s = s\<lparr>nickname := []\<rparr>"

text \<open>
  The position of the first message of a sender, and the order in which the own keys
  of the aggregation object are enumerated: array indices first, by ascending value,
  then the other ids by their first appearance in the input.
\<close>

definition first_pos :: "string \<Rightarrow> message list \<Rightarrow> nat" where
  "first_pos uid ms = length (takeWhile (\<lambda>m. userId m \<noteq> uid) ms)"

definition enum_before :: "message list \<Rightarrow> string \<Rightarrow> string \<Rightarrow> bool" where
  "enum_before ms x y =
     (if is_array_index x then (is_array_index y \<longrightarrow> index_value x < index_value y)
      else \<not> is_array_index y \<and> first_pos x ms < first_pos y ms)"

section \<open>Test inputs\<close>

text \<open>A test message: the \<open>i\<close>-th message of user \<open>uid\<close> on platform \<open>qq\<close>.\<close>

definition test_message :: "string \<Rightarrow> nat \<Rightarrow> message" where
  "test_message uid i =
     \<lparr>msg_id = replicate i (CHR ''m''), platform = ''qq'', userId = uid, username = ''u'',
      content = ''hi'', timestamp = Some (int i), messageId = None, elements = None\<rparr>"

definition test_config :: plugin_config where
  "test_config = \<lparr>model = None, maxUsersInReport = 10\<rparr>"

definition test_env :: env where
  "test_env = \<lparr>yamlLoad = (\<lambda>s. Some (YStr s)), cleanYamlContent = (\<lambda>s. s),
                generateActiveHoursChart = (\<lambda>hours. [])\<rparr>"

definition utc :: "int \<Rightarrow> int" where
  "utc t = 0"

text \<open>A message of user \<open>42\<close> that is one image, with the rendered content \<open>[img]\<close>.\<close>

definition image_message :: message where
  "image_message =
     \<lparr>msg_id = ''m1'', platform = ''qq'', userId = ''42'', username = ''u42'',
      content = ''[img]'', timestamp = Some 0, messageId = None,
      elements = Some [\<lparr>seg_type = ''image'', seg_text = None\<rparr>]\<rparr>"

text \<open>
  Two images of user \<open>42\<close>, then \<open>n\<close> messages of user \<open>7\<close> without segments.
\<close>

definition emoji_messages :: "nat \<Rightarrow> message list" where
  "emoji_messages n = image_message # image_message # replicate n (test_message ''7'' 0)"

text \<open>
  Two inputs for the ranking: the users \<open>2\<close> and \<open>1\<close>, one message each, in this order;
  and the users \<open>bob\<close>, \<open>alice\<close> (one message each) and \<open>7\<close> (two messages).
\<close>

definition numeric_senders :: "message list" where
  "numeric_senders = [test_message ''2'' 0, test_message ''1'' 0]"

definition named_senders :: "message list" where
  "named_senders =
     [test_message ''bob'' 0, test_message ''alice'' 0, test_message ''7'' 0, test_message ''7'' 0]"

text \<open>A message of user \<open>7\<close> whose date is invalid.\<close>

definition undated_message :: message where
  "undated_message = (test_message ''7'' 0)\<lparr>timestamp := None\<rparr>"

section \<open>LLM service: proofs\<close>

lemma str_includes_iff:
  "str_includes s t \<longleftrightarrow> (\<exists>pre post. s = pre @ t @ post)"
proof (induction s)
  case Nil
  show ?case by auto
next
  case (Cons c s)
  have "take (length t) (c # s) = t \<longleftrightarrow> (\<exists>post. c # s = t @ post)"
    by (metis append_eq_conv_conj append_take_drop_id)
  moreover have "(\<exists>pre post. c # s = pre @ t @ post)
      \<longleftrightarrow> (\<exists>post. c # s = t @ post) \<or> (\<exists>pre post. s = pre @ t @ post)"
    (is "?L \<longleftrightarrow> ?A \<or> ?B")
  proof
    assume ?L
    then obtain pre post where eq: "c # s = pre @ t @ post" by blast
    show "?A \<or> ?B"
    proof (cases pre)
      case Nil
      with eq show ?thesis by auto
    next
      case (Cons p pre')
      with eq have "s = pre' @ t @ post" by simp
      then show ?thesis by blast
    qed
  next
    assume "?A \<or> ?B"
    then show ?L
    proof
      assume ?A
      then obtain post where "c # s = [] @ t @ post" by auto
      then show ?L by blast
    next
      assume ?B
      then obtain pre post where "s = pre @ t @ post" by blast
      then have "c # s = (c # pre) @ t @ post" by simp
      then show ?L by blast
    qed
  qed
  ultimately show ?case using Cons.IH by simp
qed

lemma str_includes_nonempty:
  "str_includes s t \<Longrightarrow> t \<noteq> [] \<Longrightarrow> s \<noteq> []"
  by (cases s) auto

lemma truthy_find_includes:
  "t \<noteq> [] \<Longrightarrow> truthy (find (\<lambda>id. str_includes id t) ids) \<longleftrightarrow> (\<exists>id \<in> set ids. str_includes id t)"
proof -
  assume t: "t \<noteq> []"
  show ?thesis
  proof (cases "find (\<lambda>id. str_includes id t) ids")
    case None
    then have "\<not> (\<exists>id \<in> set ids. str_includes id t)"
      by (simp add: find_None_iff)
    with None show ?thesis by (simp add: truthy_def)
  next
    case (Some m)
    then have "str_includes m t" "m \<in> set ids"
      by (auto simp: find_Some_iff)
    with t Some show ?thesis
      by (auto simp: truthy_def dest: str_includes_nonempty)
  qed
qed

text \<open>The loop over the markers, by the first marker that some id includes.\<close>

lemma first_preferred_eq:
  "[] \<notin> set targets \<Longrightarrow>
   first_preferred targets ids =
     (case filter (\<lambda>t. \<exists>id \<in> set ids. str_includes id t) targets of
        [] \<Rightarrow> None
      | t # _ \<Rightarrow> find (\<lambda>id. str_includes id t) ids)"
  by (induction targets) (auto simp: truthy_find_includes)

lemma first_preferred_truthy:
  "[] \<notin> set targets \<Longrightarrow> first_preferred targets ids = Some m \<Longrightarrow> m \<noteq> []"
proof (induction targets)
  case Nil
  then show ?case by simp
next
  case (Cons t targets)
  then show ?case
    by (auto simp: truthy_def split: if_splits option.splits)
qed

lemma preferred_nonempty: "[] \<notin> set preferred"
  by (simp add: preferred_def)

lemma selectModel_unconfigured:
  "\<not> truthy (model cfg) \<Longrightarrow>
   selectModel cfg st =
     (if availableModels st = [] then None
      else case filter (\<lambda>t. \<exists>id \<in> set (availableModels st). str_includes id t) preferred of
             [] \<Rightarrow> Some (hd (availableModels st))
           | t # _ \<Rightarrow> find (\<lambda>id. str_includes id t) (availableModels st))"
proof -
  assume unconfigured: "\<not> truthy (model cfg)"
  let ?ids = "availableModels st"
  let ?hits = "filter (\<lambda>t. \<exists>id \<in> set ?ids. str_includes id t) preferred"
  have fp: "first_preferred preferred ?ids =
      (case ?hits of [] \<Rightarrow> None | t # _ \<Rightarrow> find (\<lambda>id. str_includes id t) ?ids)"
    by (rule first_preferred_eq [OF preferred_nonempty])
  show ?thesis
  proof (cases ?hits)
    case Nil
    with fp unconfigured show ?thesis by (simp add: selectModel_def)
  next
    case (Cons t ts)
    then have "t \<in> set ?hits" by simp
    then obtain id where "id \<in> set ?ids" "str_includes id t" by auto
    then have "find (\<lambda>id. str_includes id t) ?ids \<noteq> None"
      by (auto simp: find_None_iff)
    with fp Cons unconfigured show ?thesis
      by (auto simp: selectModel_def)
  qed
qed

text \<open>The last part of a call: the selection from the list that the instance holds.\<close>

lemma resolveModel_resume_unconfigured:
  assumes unconfigured: "\<not> truthy (model cfg)"
  shows "resolveModel_resume cfg st =
     (let ids = availableModels st
      in case filter (\<lambda>t. \<exists>id \<in> set ids. str_includes id t) preferred of
           t # _ \<Rightarrow> (case find (\<lambda>id. str_includes id t) ids of
                        Some m \<Rightarrow> (Inr m, st\<lparr>resolvedModel := Some m\<rparr>)
                      | None \<Rightarrow> (Inl NoUsableModel, st))
         | [] \<Rightarrow> if ids \<noteq> [] \<and> hd ids \<noteq> []
                 then (Inr (hd ids), st\<lparr>resolvedModel := Some (hd ids)\<rparr>)
                 else (Inl NoUsableModel, st))"
proof -
  define ids where "ids = availableModels st"
  have sel: "selectModel cfg st =
      (if ids = [] then None
       else case filter (\<lambda>t. \<exists>id \<in> set ids. str_includes id t) preferred of
              [] \<Rightarrow> Some (hd ids)
            | t # _ \<Rightarrow> find (\<lambda>id. str_includes id t) ids)"
    unfolding ids_def by (rule selectModel_unconfigured [OF unconfigured])
  have hit: "m \<noteq> []" if "find (\<lambda>id. str_includes id t) ids = Some m" "t \<in> set preferred" for t m
  proof -
    from that(1) have "str_includes m t" by (auto simp: find_Some_iff)
    moreover from that(2) have "t \<noteq> []" using preferred_nonempty by auto
    ultimately show ?thesis by (rule str_includes_nonempty)
  qed
  show ?thesis
  proof (cases "filter (\<lambda>t. \<exists>id \<in> set ids. str_includes id t) preferred")
    case Nil
    then show ?thesis
      unfolding resolveModel_resume_def sel Let_def ids_def [symmetric]
      by (simp add: truthy_def)
  next
    case (Cons t ts)
    then have "t \<in> set (filter (\<lambda>t. \<exists>id \<in> set ids. str_includes id t) preferred)" by simp
    then have t: "t \<in> set preferred" and "\<exists>id \<in> set ids. str_includes id t" by auto
    then have "ids \<noteq> []" by auto
    with Cons hit [OF _ t] show ?thesis
      unfolding resolveModel_resume_def sel Let_def ids_def [symmetric]
      by (auto simp: truthy_def split: option.splits)
  qed
qed

lemma resolveModel_resume_memo:
  "resolveModel_resume cfg st = (Inr m, st1) \<Longrightarrow> resolvedModel st1 = Some m \<and> m \<noteq> []"
  by (auto simp: resolveModel_resume_def truthy_def split: if_splits option.splits)

lemma resolveModel_resume_keeps:
  "truthy (resolvedModel st) \<Longrightarrow> truthy (resolvedModel (snd (resolveModel_resume cfg st)))"
  by (simp add: resolveModel_resume_def)

text \<open>A call during which no other call runs, in one piece.\<close>

lemma resolveModel_alone:
  "resolveModel cfg resp st =
     (if truthy (resolvedModel st) then (Inr (the (resolvedModel st)), st)
      else if truthy (model cfg) then (Inr (the (model cfg)), st\<lparr>resolvedModel := model cfg\<rparr>)
      else case (if availableModels st = []
                 then fetchAvailableModels_receive resp (fetchAvailableModels_send st)
                 else (None, st)) of
             (Some e, st1) \<Rightarrow> (Inl e, st1)
           | (None, st1) \<Rightarrow> resolveModel_resume cfg st1)"
  by (simp add: resolveModel_def resolveModel_start_def split: prod.splits)

lemma resolveModel_memo:
  "fst (resolveModel cfg resp st) = Inr m \<Longrightarrow>
   resolvedModel (snd (resolveModel cfg resp st)) = Some m \<and> m \<noteq> []"
  by (auto simp: resolveModel_alone resolveModel_resume_def truthy_def
           fetchAvailableModels_receive_def fetchAvailableModels_send_def
           split: if_splits option.splits prod.splits response.splits)

lemma resolveModel_resolved:
  "resolvedModel st = Some m \<Longrightarrow> m \<noteq> [] \<Longrightarrow> resolveModel cfg resp st = (Inr m, st)"
  by (simp add: resolveModel_alone truthy_def)

text \<open>
  The events \<open>Start\<close>, \<open>Deliver\<close>, \<open>Resume\<close> of one call, with no event of another call
  between them, are the call in one piece.
\<close>

lemma fire_alone:
  "foldl (fire cfg) \<lparr>service = st, calls = cs\<rparr> [Start, Deliver (length cs) resp, Resume (length cs)]
     = \<lparr>service = snd (resolveModel cfg resp st), calls = cs @ [Settled (fst (resolveModel cfg resp st))]\<rparr>"
  by (auto simp: fire_def resolveModel_def split: prod.splits option.splits)

text \<open>Whatever the events, a memoized identifier is never cleared.\<close>

lemma fire_keeps_memo:
  "truthy (resolvedModel (service inst)) \<Longrightarrow> truthy (resolvedModel (service (fire cfg inst e)))"
proof (cases e)
  case Start
  assume "truthy (resolvedModel (service inst))"
  with Start show ?thesis
    by (simp add: fire_def resolveModel_start_def)
next
  case (Deliver n resp)
  assume "truthy (resolvedModel (service inst))"
  with Deliver show ?thesis
    by (auto simp: fire_def fetchAvailableModels_receive_def split: response.splits)
next
  case (Resume n)
  assume "truthy (resolvedModel (service inst))"
  then have "truthy (resolvedModel (snd (resolveModel_resume cfg (service inst))))"
    by (rule resolveModel_resume_keeps)
  with Resume \<open>truthy (resolvedModel (service inst))\<close> show ?thesis
    by (auto simp: fire_def split: prod.splits)
qed

lemma events_keep_memo:
  "truthy (resolvedModel (service inst)) \<Longrightarrow>
   truthy (resolvedModel (service (foldl (fire cfg) inst es)))"
  by (induction es arbitrary: inst) (simp_all add: fire_keeps_memo)

text \<open>With a configured identifier, no call ever waits and no request is ever sent.\<close>

lemma play_configured:
  assumes configured: "truthy (model cfg)"
  shows "discoveryCalls (service (play cfg es)) = 0
     \<and> (resolvedModel (service (play cfg es)) = None
          \<or> resolvedModel (service (play cfg es)) = model cfg)
     \<and> list_all (\<lambda>c. c = Settled (Inr (the (model cfg)))) (calls (play cfg es))"
proof (induction es rule: rev_induct)
  case Nil
  show ?case by (simp add: play_def new_llm_service_def)
next
  case (snoc e es)
  let ?inst = "play cfg es"
  have step: "play cfg (es @ [e]) = fire cfg ?inst e"
    by (simp add: play_def)
  from snoc have settled: "\<And>n. n < length (calls ?inst) \<Longrightarrow>
      calls ?inst ! n = Settled (Inr (the (model cfg)))"
    by (simp add: list_all_length)
  show ?case
  proof (cases e)
    case Start
    have "\<not> truthy None" by (simp add: truthy_def)
    with Start snoc configured show ?thesis
      unfolding step by (auto simp: fire_def resolveModel_start_def)
  next
    case (Deliver n resp)
    from settled [of n] have "\<not> (n < length (calls ?inst) \<and> calls ?inst ! n = Fetching)"
      by auto
    with Deliver have "fire cfg ?inst e = ?inst"
      by (auto simp: fire_def)
    with snoc show ?thesis unfolding step by simp
  next
    case (Resume n)
    from settled [of n] have "\<not> (n < length (calls ?inst) \<and> calls ?inst ! n = Resuming)"
      by auto
    with Resume have "fire cfg ?inst e = ?inst"
      by (auto simp: fire_def)
    with snoc show ?thesis unfolding step by simp
  qed
qed

text \<open>
  C3 (as amended).  A call that no other call overlaps, on a new instance: with a
  configured, non-empty model identifier, \<open>resolveModel\<close> returns it and sends no request
  to the model list endpoint; without one, it sends exactly one such request, and when
  the list arrives the result is the first advertised identifier that includes the
  first marker of \<open>preferred\<close> (in priority order) included in any advertised
  identifier; when no marker is included in any of them, it is the first advertised
  identifier if that is not the empty string, and the error \<open>NoUsableModel\<close> otherwise.
  Once such a call has returned an identifier, every later such call on the instance
  returns the same identifier and leaves the instance (and its count of requests)
  unchanged.

  Calls that may overlap, in any order of the events: with a configured, non-empty
  identifier no request is ever sent and every call returns that identifier.  A call
  started when an identifier is memoized returns it at once and changes nothing.  A
  call started when none is memoized, none is configured and the instance holds no
  list sends a request of its own and waits, so calls that start together each send
  one; when the instance holds a list the call selects from it at once.  A call that
  is resumed selects from the list that the instance holds at that moment, by the rule
  above, and memoizes what it returns.  A memoized identifier is never cleared.
  \<open>str_includes\<close> is the substring relation, by \<open>str_includes_iff\<close>.
\<close>

theorem resolveModel_order:
  "(truthy (model cfg) \<longrightarrow>
      resolveModel cfg resp new_llm_service
        = (Inr (the (model cfg)), new_llm_service\<lparr>resolvedModel := model cfg\<rparr>))
   \<and> (\<not> truthy (model cfg) \<longrightarrow>
        discoveryCalls (snd (resolveModel cfg resp new_llm_service)) = 1)
   \<and> (\<not> truthy (model cfg) \<longrightarrow>
        fst (resolveModel cfg (Ok (Some items)) new_llm_service) =
          (let ids = List.map_filter (\<lambda>item. item) items
           in case filter (\<lambda>t. \<exists>id \<in> set ids. str_includes id t) preferred of
                t # _ \<Rightarrow> (case find (\<lambda>id. str_includes id t) ids of
                             Some m \<Rightarrow> Inr m | None \<Rightarrow> Inl NoUsableModel)
              | [] \<Rightarrow> if ids \<noteq> [] \<and> hd ids \<noteq> [] then Inr (hd ids) else Inl NoUsableModel))
   \<and> (fst (resolveModel cfg resp st) = Inr m \<longrightarrow>
        resolveModel cfg resp' (snd (resolveModel cfg resp st))
          = (Inr m, snd (resolveModel cfg resp st)))
   \<and> (truthy (model cfg) \<longrightarrow>
        discoveryCalls (service (play cfg es)) = 0
        \<and> list_all (\<lambda>c. c = Settled (Inr (the (model cfg)))) (calls (play cfg es)))
   \<and> (truthy (resolvedModel st) \<longrightarrow>
        resolveModel_start cfg st = (Some (Inr (the (resolvedModel st))), st))
   \<and> (\<not> truthy (resolvedModel st) \<and> \<not> truthy (model cfg) \<and> availableModels st = [] \<longrightarrow>
        resolveModel_start cfg st = (None, st\<lparr>discoveryCalls := discoveryCalls st + 1\<rparr>))
   \<and> (\<not> truthy (resolvedModel st) \<and> \<not> truthy (model cfg) \<and> availableModels st \<noteq> [] \<longrightarrow>
        resolveModel_start cfg st = (Some (fst (resolveModel_resume cfg st)), snd (resolveModel_resume cfg st)))
   \<and> fetchAvailableModels_receive (Ok (Some items)) st
        = (None, st\<lparr>availableModels := List.map_filter (\<lambda>item. item) items\<rparr>)
   \<and> (\<not> truthy (model cfg) \<longrightarrow>
        resolveModel_resume cfg st =
          (let ids = availableModels st
           in case filter (\<lambda>t. \<exists>id \<in> set ids. str_includes id t) preferred of
                t # _ \<Rightarrow> (case find (\<lambda>id. str_includes id t) ids of
                             Some m \<Rightarrow> (Inr m, st\<lparr>resolvedModel := Some m\<rparr>)
                           | None \<Rightarrow> (Inl NoUsableModel, st))
              | [] \<Rightarrow> if ids \<noteq> [] \<and> hd ids \<noteq> []
                      then (Inr (hd ids), st\<lparr>resolvedModel := Some (hd ids)\<rparr>)
                      else (Inl NoUsableModel, st)))
   \<and> (truthy (resolvedModel (service inst)) \<longrightarrow>
        truthy (resolvedModel (service (foldl (fire cfg) inst es'))))"
proof (intro conjI impI)
  assume "truthy (model cfg)"
  then show "resolveModel cfg resp new_llm_service
      = (Inr (the (model cfg)), new_llm_service\<lparr>resolvedModel := model cfg\<rparr>)"
    by (simp add: resolveModel_alone new_llm_service_def truthy_def)
next
  assume "\<not> truthy (model cfg)"
  then show "discoveryCalls (snd (resolveModel cfg resp new_llm_service)) = 1"
    by (auto simp: resolveModel_alone resolveModel_resume_def new_llm_service_def truthy_def
          fetchAvailableModels_receive_def fetchAvailableModels_send_def
          split: response.splits option.splits)
next
  assume unconfigured: "\<not> truthy (model cfg)"
  define ids where "ids = List.map_filter (\<lambda>item. item) items"
  define st1 where "st1 = new_llm_service\<lparr>discoveryCalls := 1, availableModels := ids\<rparr>"
  have av: "availableModels st1 = ids" by (simp add: st1_def)
  have "resolveModel cfg (Ok (Some items)) new_llm_service = resolveModel_resume cfg st1"
    using unconfigured
    by (simp add: resolveModel_alone new_llm_service_def truthy_def st1_def ids_def
          fetchAvailableModels_receive_def fetchAvailableModels_send_def)
  then show "fst (resolveModel cfg (Ok (Some items)) new_llm_service) =
          (let ids = List.map_filter (\<lambda>item. item) items
           in case filter (\<lambda>t. \<exists>id \<in> set ids. str_includes id t) preferred of
                t # _ \<Rightarrow> (case find (\<lambda>id. str_includes id t) ids of
                             Some m \<Rightarrow> Inr m | None \<Rightarrow> Inl NoUsableModel)
              | [] \<Rightarrow> if ids \<noteq> [] \<and> hd ids \<noteq> [] then Inr (hd ids) else Inl NoUsableModel)"
    unfolding resolveModel_resume_unconfigured [OF unconfigured] av ids_def [symmetric] Let_def
    by (simp split: list.splits option.splits)
next
  assume "fst (resolveModel cfg resp st) = Inr m"
  from resolveModel_memo [OF this]
  show "resolveModel cfg resp' (snd (resolveModel cfg resp st))
      = (Inr m, snd (resolveModel cfg resp st))"
    by (simp add: resolveModel_resolved)
next
  assume "truthy (model cfg)"
  from play_configured [OF this, of es]
  show "discoveryCalls (service (play cfg es)) = 0"
    and "list_all (\<lambda>c. c = Settled (Inr (the (model cfg)))) (calls (play cfg es))"
    by simp_all
next
  assume "truthy (resolvedModel st)"
  then show "resolveModel_start cfg st = (Some (Inr (the (resolvedModel st))), st)"
    by (simp add: resolveModel_start_def)
next
  assume "\<not> truthy (resolvedModel st) \<and> \<not> truthy (model cfg) \<and> availableModels st = []"
  then show "resolveModel_start cfg st = (None, st\<lparr>discoveryCalls := discoveryCalls st + 1\<rparr>)"
    by (simp add: resolveModel_start_def fetchAvailableModels_send_def)
next
  assume "\<not> truthy (resolvedModel st) \<and> \<not> truthy (model cfg) \<and> availableModels st \<noteq> []"
  then show "resolveModel_start cfg st
      = (Some (fst (resolveModel_resume cfg st)), snd (resolveModel_resume cfg st))"
    by (simp add: resolveModel_start_def split: prod.splits)
next
  show "fetchAvailableModels_receive (Ok (Some items)) st
      = (None, st\<lparr>availableModels := List.map_filter (\<lambda>item. item) items\<rparr>)"
    by (simp add: fetchAvailableModels_receive_def)
next
  assume "\<not> truthy (model cfg)"
  then show "resolveModel_resume cfg st =
          (let ids = availableModels st
           in case filter (\<lambda>t. \<exists>id \<in> set ids. str_includes id t) preferred of
                t # _ \<Rightarrow> (case find (\<lambda>id. str_includes id t) ids of
                             Some m \<Rightarrow> (Inr m, st\<lparr>resolvedModel := Some m\<rparr>)
                           | None \<Rightarrow> (Inl NoUsableModel, st))
              | [] \<Rightarrow> if ids \<noteq> [] \<and> hd ids \<noteq> []
                      then (Inr (hd ids), st\<lparr>resolvedModel := Some (hd ids)\<rparr>)
                      else (Inl NoUsableModel, st))"
    by (rule resolveModel_resume_unconfigured)
next
  assume "truthy (resolvedModel (service inst))"
  then show "truthy (resolvedModel (service (foldl (fire cfg) inst es')))"
    by (rule events_keep_memo)
qed

theorem resolveModel_order_witness:
  "resolveModel (test_config\<lparr>model := Some ''my-model''\<rparr>) Rejected new_llm_service
      = (Inr ''my-model'', new_llm_service\<lparr>resolvedModel := Some ''my-model''\<rparr>)
   \<and> discoveryCalls (snd (resolveModel test_config (Ok (Some [Some ''foo-7b'', Some ''qwen-14b''])) new_llm_service)) = 1
   \<and> fst (resolveModel test_config (Ok (Some [Some ''foo-7b'', Some ''qwen-14b''])) new_llm_service)
        = Inr ''qwen-14b''
   \<and> fst (resolveModel test_config (Ok (Some [Some ''foo-7b'', Some ''bar-1b''])) new_llm_service)
        = Inr ''foo-7b''
   \<and> resolveModel test_config Rejected
        (snd (resolveModel test_config (Ok (Some [Some ''foo-7b'', Some ''qwen-14b''])) new_llm_service))
        = (Inr ''qwen-14b'',
           snd (resolveModel test_config (Ok (Some [Some ''foo-7b'', Some ''qwen-14b''])) new_llm_service))
   \<and> discoveryCalls (service (play (test_config\<lparr>model := Some ''my-model''\<rparr>) [Start, Start, Start])) = 0
   \<and> calls (play (test_config\<lparr>model := Some ''my-model''\<rparr>) [Start, Start, Start])
        = [Settled (Inr ''my-model''), Settled (Inr ''my-model''), Settled (Inr ''my-model'')]
   \<and> resolveModel_start test_config (new_llm_service\<lparr>resolvedModel := Some ''glm-4''\<rparr>)
        = (Some (Inr ''glm-4''), new_llm_service\<lparr>resolvedModel := Some ''glm-4''\<rparr>)
   \<and> resolveModel_start test_config new_llm_service
        = (None, new_llm_service\<lparr>discoveryCalls := 1\<rparr>)
   \<and> resolveModel_start test_config (new_llm_service\<lparr>availableModels := [''foo-7b'', ''qwen-14b'']\<rparr>)
        = (Some (Inr ''qwen-14b''),
           new_llm_service\<lparr>availableModels := [''foo-7b'', ''qwen-14b''], resolvedModel := Some ''qwen-14b''\<rparr>)
   \<and> fetchAvailableModels_receive (Ok (Some [Some ''foo-7b'', None, Some ''qwen-14b''])) new_llm_service
        = (None, new_llm_service\<lparr>availableModels := [''foo-7b'', ''qwen-14b'']\<rparr>)
   \<and> truthy (resolvedModel (service (foldl (fire test_config)
        \<lparr>service = new_llm_service\<lparr>resolvedModel := Some ''glm-4''\<rparr>, calls = [Fetching]\<rparr>
        [Deliver 0 (Ok (Some [Some ''foo-7b''])), Resume 0, Start])))"
proof -
  let ?configured = "test_config\<lparr>model := Some ''my-model''\<rparr>"
  let ?list = "Ok (Some [Some ''foo-7b'', Some ''qwen-14b''])"
  let ?held = "new_llm_service\<lparr>availableModels := [''foo-7b'', ''qwen-14b'']\<rparr>"
  have c: "truthy (model ?configured)"
    and u: "\<not> truthy (model test_config)"
    and n: "\<not> truthy (resolvedModel new_llm_service)"
    and n': "\<not> truthy (resolvedModel ?held)"
    and g: "truthy (resolvedModel (new_llm_service\<lparr>resolvedModel := Some ''glm-4''\<rparr>))"
    and e: "availableModels new_llm_service = []"
    and e': "availableModels ?held \<noteq> []"
    by (simp_all add: truthy_def test_config_def new_llm_service_def)
  have ids: "List.map_filter (\<lambda>item. item) [Some ''foo-7b'', Some ''qwen-14b''] = [''foo-7b'', ''qwen-14b'']"
    "List.map_filter (\<lambda>item. item) [Some ''foo-7b'', Some ''bar-1b''] = [''foo-7b'', ''bar-1b'']"
    "List.map_filter (\<lambda>item. item) [Some ''foo-7b'', None, Some ''qwen-14b''] = [''foo-7b'', ''qwen-14b'']"
    by (simp_all add: List.map_filter_def)
  note configured = resolveModel_order [where cfg = ?configured and resp = Rejected
      and es = "[Start, Start, Start]"]
  from configured c
  have t1: "resolveModel ?configured Rejected new_llm_service
      = (Inr ''my-model'', new_llm_service\<lparr>resolvedModel := Some ''my-model''\<rparr>)"
    and t5: "discoveryCalls (service (play ?configured [Start, Start, Start])) = 0"
      "list_all (\<lambda>c. c = Settled (Inr ''my-model'')) (calls (play ?configured [Start, Start, Start]))"
    by simp_all
  have len: "length (calls (play ?configured [Start, Start, Start])) = 3"
    by (simp add: play_def fire_def resolveModel_start_def split: prod.splits)
  from len obtain a b c where abc: "calls (play ?configured [Start, Start, Start]) = [a, b, c]"
    by (auto simp: length_Suc_conv numeral_3_eq_3)
  from t5(2) have t5': "calls (play ?configured [Start, Start, Start])
      = [Settled (Inr ''my-model''), Settled (Inr ''my-model''), Settled (Inr ''my-model'')]"
    unfolding abc by simp
  note alone = resolveModel_order [where cfg = test_config and resp = ?list
      and items = "[Some ''foo-7b'', Some ''qwen-14b'']"]
  from alone u
  have t2: "discoveryCalls (snd (resolveModel test_config ?list new_llm_service)) = 1"
    and t3: "fst (resolveModel test_config ?list new_llm_service) = Inr ''qwen-14b''"
    by (simp_all add: ids preferred_def)
  from resolveModel_order [where cfg = test_config and items = "[Some ''foo-7b'', Some ''bar-1b'']"] u
  have t3': "fst (resolveModel test_config (Ok (Some [Some ''foo-7b'', Some ''bar-1b''])) new_llm_service)
      = Inr ''foo-7b''"
    by (simp add: ids preferred_def)
  from resolveModel_order [where cfg = test_config and resp = ?list and st = new_llm_service
      and resp' = Rejected and m = "''qwen-14b''"] t3
  have t4: "resolveModel test_config Rejected (snd (resolveModel test_config ?list new_llm_service))
      = (Inr ''qwen-14b'', snd (resolveModel test_config ?list new_llm_service))"
    by simp
  from resolveModel_order [where cfg = test_config
      and st = "new_llm_service\<lparr>resolvedModel := Some ''glm-4''\<rparr>"] g
  have t6: "resolveModel_start test_config (new_llm_service\<lparr>resolvedModel := Some ''glm-4''\<rparr>)
      = (Some (Inr ''glm-4''), new_llm_service\<lparr>resolvedModel := Some ''glm-4''\<rparr>)"
    by simp
  from resolveModel_order [where cfg = test_config and st = new_llm_service
      and items = "[Some ''foo-7b'', None, Some ''qwen-14b'']"] n u e
  have t7: "resolveModel_start test_config new_llm_service = (None, new_llm_service\<lparr>discoveryCalls := 1\<rparr>)"
    and t9: "fetchAvailableModels_receive (Ok (Some [Some ''foo-7b'', None, Some ''qwen-14b''])) new_llm_service
      = (None, new_llm_service\<lparr>availableModels := [''foo-7b'', ''qwen-14b'']\<rparr>)"
    by (simp_all add: ids new_llm_service_def)
  from resolveModel_order [where cfg = test_config and st = ?held] n' u e'
  have t8: "resolveModel_start test_config ?held
      = (Some (Inr ''qwen-14b''), ?held\<lparr>resolvedModel := Some ''qwen-14b''\<rparr>)"
    by (simp add: preferred_def new_llm_service_def)
  from resolveModel_order [where cfg = test_config
      and inst = "\<lparr>service = new_llm_service\<lparr>resolvedModel := Some ''glm-4''\<rparr>, calls = [Fetching]\<rparr>"
      and es' = "[Deliver 0 (Ok (Some [Some ''foo-7b''])), Resume 0, Start]"] g
  have t10: "truthy (resolvedModel (service (foldl (fire test_config)
        \<lparr>service = new_llm_service\<lparr>resolvedModel := Some ''glm-4''\<rparr>, calls = [Fetching]\<rparr>
        [Deliver 0 (Ok (Some [Some ''foo-7b''])), Resume 0, Start])))"
    by simp
  from t1 t2 t3 t3' t4 t5(1) t5' t6 t7 t8 t9 t10 show ?thesis
    by (simp only: simp_thms)
qed

text \<open>
  C3 as stated fails.  No marker is included in the advertised identifiers
  \<open>["", "foo-7b"]\<close>, and the result is not the first of them but the error
  \<open>NoUsableModel\<close>.  The list is not fetched once: three calls that are started
  together, as the three extraction tasks of an analysis are, send three requests, and
  each of them stores the list and writes the memoized identifier.  The identifier
  memoized first does not stay for the lifetime of the instance: of two calls started
  together, the second, when its list arrives, returns and memoizes an identifier of
  its own.
\<close>

theorem resolveModel_order_counterexample:
  "list_all (\<lambda>t. \<not> str_includes '''' t \<and> \<not> str_includes ''foo-7b'' t) preferred
   \<and> fst (resolveModel test_config (Ok (Some [Some '''', Some ''foo-7b''])) new_llm_service)
        = Inl NoUsableModel
   \<and> play test_config
        [Start, Start, Start,
         Deliver 0 (Ok (Some [Some ''qwen-14b''])), Resume 0,
         Deliver 1 (Ok (Some [Some ''qwen-14b''])), Resume 1,
         Deliver 2 (Ok (Some [Some ''qwen-14b''])), Resume 2]
        = \<lparr>service = \<lparr>availableModels = [''qwen-14b''], resolvedModel = Some ''qwen-14b'',
                       discoveryCalls = 3\<rparr>,
            calls = [Settled (Inr ''qwen-14b''), Settled (Inr ''qwen-14b''), Settled (Inr ''qwen-14b'')]\<rparr>
   \<and> play test_config
        [Start, Start,
         Deliver 0 (Ok (Some [Some ''qwen-14b''])), Resume 0,
         Deliver 1 (Ok (Some [Some ''glm-4''])), Resume 1]
        = \<lparr>service = \<lparr>availableModels = [''glm-4''], resolvedModel = Some ''glm-4'',
                       discoveryCalls = 2\<rparr>,
            calls = [Settled (Inr ''qwen-14b''), Settled (Inr ''glm-4'')]\<rparr>"
proof -
  have sel: "selectModel test_config \<lparr>availableModels = [''qwen-14b''], resolvedModel = r, discoveryCalls = n\<rparr>
      = Some ''qwen-14b''"
    "selectModel test_config \<lparr>availableModels = [''glm-4''], resolvedModel = r, discoveryCalls = n\<rparr>
      = Some ''glm-4''" for r n
    by (simp_all add: selectModel_def test_config_def truthy_def preferred_def)
  have ids: "List.map_filter (\<lambda>item. item) [Some ''qwen-14b''] = [''qwen-14b'']"
    "List.map_filter (\<lambda>item. item) [Some ''glm-4''] = [''glm-4'']"
    by (simp_all add: List.map_filter_def)
  have u: "\<not> truthy (model test_config)" "\<not> truthy None" "truthy (Some ''qwen-14b'')" "truthy (Some ''glm-4'')"
    by (simp_all add: truthy_def test_config_def)
  have first: "list_all (\<lambda>t. \<not> str_includes '''' t \<and> \<not> str_includes ''foo-7b'' t) preferred"
    by (simp add: preferred_def)
  have second: "fst (resolveModel test_config (Ok (Some [Some '''', Some ''foo-7b''])) new_llm_service)
        = Inl NoUsableModel"
    by (simp add: preferred_def resolveModel_alone resolveModel_resume_def test_config_def
          new_llm_service_def truthy_def fetchAvailableModels_receive_def
          fetchAvailableModels_send_def selectModel_def List.map_filter_def)
  have third: "play test_config
        [Start, Start, Start,
         Deliver 0 (Ok (Some [Some ''qwen-14b''])), Resume 0,
         Deliver 1 (Ok (Some [Some ''qwen-14b''])), Resume 1,
         Deliver 2 (Ok (Some [Some ''qwen-14b''])), Resume 2]
        = \<lparr>service = \<lparr>availableModels = [''qwen-14b''], resolvedModel = Some ''qwen-14b'',
                       discoveryCalls = 3\<rparr>,
            calls = [Settled (Inr ''qwen-14b''), Settled (Inr ''qwen-14b''), Settled (Inr ''qwen-14b'')]\<rparr>"
    by (simp add: play_def fire_def resolveModel_start_def resolveModel_resume_def
          fetchAvailableModels_send_def fetchAvailableModels_receive_def new_llm_service_def
          sel ids u)
  have fourth: "play test_config
        [Start, Start,
         Deliver 0 (Ok (Some [Some ''qwen-14b''])), Resume 0,
         Deliver 1 (Ok (Some [Some ''glm-4''])), Resume 1]
        = \<lparr>service = \<lparr>availableModels = [''glm-4''], resolvedModel = Some ''glm-4'',
                       discoveryCalls = 2\<rparr>,
            calls = [Settled (Inr ''qwen-14b''), Settled (Inr ''glm-4'')]\<rparr>"
    by (simp add: play_def fire_def resolveModel_start_def resolveModel_resume_def
          fetchAvailableModels_send_def fetchAvailableModels_receive_def new_llm_service_def
          sel ids u)
  from first second third fourth show ?thesis by (simp only: simp_thms)
qed

section \<open>LLM service: the fenced block\<close>

text \<open>The match of the fence pattern, by \<open>has_block\<close>.\<close>

lemma not_space_backtick [simp]: "\<not> is_space (CHR ''`'')"
  by (simp add: is_space_def)

lemma closes_block_iff:
  "closes_block x \<longleftrightarrow> (\<exists>ws post. x = ws @ ''```'' @ post \<and> list_all is_space ws)"
proof
  assume "closes_block x"
  then have "dropWhile is_space x = ''```'' @ drop 3 (dropWhile is_space x)"
    unfolding closes_block_def by (metis append_take_drop_id)
  then have "x = takeWhile is_space x @ ''```'' @ drop 3 (dropWhile is_space x)"
    by (metis takeWhile_dropWhile_id)
  moreover have "list_all is_space (takeWhile is_space x)"
    by (simp add: list_all_iff) (meson set_takeWhileD)
  ultimately show "\<exists>ws post. x = ws @ ''```'' @ post \<and> list_all is_space ws"
    by blast
next
  assume "\<exists>ws post. x = ws @ ''```'' @ post \<and> list_all is_space ws"
  then obtain ws post where x: "x = ws @ ''```'' @ post" and ws: "list_all is_space ws"
    by blast
  from ws have "dropWhile is_space (ws @ ''```'' @ post) = ''```'' @ post"
    by (induction ws) simp_all
  with x show "closes_block x" by (simp add: closes_block_def)
qed

lemma lazy_group_iff:
  "lazy_group r \<noteq> None \<longleftrightarrow> (\<exists>mid post. r = mid @ ''```'' @ post)"
proof
  show "lazy_group r \<noteq> None \<Longrightarrow> \<exists>mid post. r = mid @ ''```'' @ post"
  proof (induction r)
    case Nil
    then show ?case by simp
  next
    case (Cons c r)
    show ?case
    proof (cases "closes_block (c # r)")
      case True
      then show ?thesis unfolding closes_block_iff by blast
    next
      case False
      with Cons.prems have "lazy_group r \<noteq> None" by auto
      then obtain mid post where "r = mid @ ''```'' @ post"
        using Cons.IH by blast
      then have "c # r = (c # mid) @ ''```'' @ post" by simp
      then show ?thesis by blast
    qed
  qed
next
  assume "\<exists>mid post. r = mid @ ''```'' @ post"
  then obtain mid post where "r = mid @ ''```'' @ post" by blast
  then show "lazy_group r \<noteq> None"
  proof (induction mid arbitrary: r)
    case Nil
    then have "closes_block r" by (simp add: closes_block_def)
    with Nil show ?case by simp
  next
    case (Cons c mid)
    then have "lazy_group (mid @ ''```'' @ post) \<noteq> None" by blast
    with Cons.prems show ?case by auto
  qed
qed

lemma dropWhile_space_fence:
  "(\<exists>mid post. dropWhile is_space r = mid @ ''```'' @ post)
     \<longleftrightarrow> (\<exists>mid post. r = mid @ ''```'' @ post)"
proof
  assume "\<exists>mid post. dropWhile is_space r = mid @ ''```'' @ post"
  then obtain mid post where "dropWhile is_space r = mid @ ''```'' @ post" by blast
  then have "r = (takeWhile is_space r @ mid) @ ''```'' @ post"
    by (metis append.assoc takeWhile_dropWhile_id)
  then show "\<exists>mid post. r = mid @ ''```'' @ post" by blast
next
  assume "\<exists>mid post. r = mid @ ''```'' @ post"
  then obtain mid post where r: "r = mid @ ''```'' @ post" by blast
  have "dropWhile is_space (mid @ ''```'' @ post) = dropWhile is_space mid @ ''```'' @ post"
    by (induction mid) simp_all
  with r show "\<exists>mid post. dropWhile is_space r = mid @ ''```'' @ post" by blast
qed

lemma take_eq_prefix:
  "take (length t) s = t \<longleftrightarrow> (\<exists>rest. s = t @ rest)"
  by (metis append_eq_conv_conj append_take_drop_id)

lemma match_here_iff:
  "match_here s \<noteq> None \<longleftrightarrow>
     (\<exists>mid post. s = ''```yaml'' @ mid @ ''```'' @ post \<or> s = ''```yml'' @ mid @ ''```'' @ post)"
proof -
  have len: "length ''```yaml'' = 7" "length ''```yml'' = 6"
    by simp_all
  have yaml: "take 7 s = ''```yaml'' \<longleftrightarrow> (\<exists>rest. s = ''```yaml'' @ rest)"
    by (rule take_eq_prefix [of "''```yaml''" s, unfolded len])
  have yml: "take 6 s = ''```yml'' \<longleftrightarrow> (\<exists>rest. s = ''```yml'' @ rest)"
    by (rule take_eq_prefix [of "''```yml''" s, unfolded len])
  show ?thesis
  proof (cases "take 7 s = ''```yaml''")
    case True
    then obtain rest where s: "s = ''```yaml'' @ rest" using yaml by blast
    then have mh: "match_here s = lazy_group (dropWhile is_space rest)"
      by (simp add: match_here_def)
    have "match_here s \<noteq> None \<longleftrightarrow> (\<exists>mid post. rest = mid @ ''```'' @ post)"
      unfolding mh lazy_group_iff dropWhile_space_fence ..
    with s show ?thesis by auto
  next
    case no_yaml: False
    show ?thesis
    proof (cases "take 6 s = ''```yml''")
      case True
      then obtain rest where s: "s = ''```yml'' @ rest" using yml by blast
      with no_yaml have mh: "match_here s = lazy_group (dropWhile is_space rest)"
        by (simp add: match_here_def)
      have "match_here s \<noteq> None \<longleftrightarrow> (\<exists>mid post. rest = mid @ ''```'' @ post)"
        unfolding mh lazy_group_iff dropWhile_space_fence ..
      with s show ?thesis by auto
    next
      case False
      with no_yaml have "match_here s = None" by (simp add: match_here_def)
      moreover from no_yaml False yaml yml
      have "\<not> (\<exists>mid post. s = ''```yaml'' @ mid @ ''```'' @ post \<or> s = ''```yml'' @ mid @ ''```'' @ post)"
        by (metis append.assoc)
      ultimately show ?thesis by simp
    qed
  qed
qed

lemma yaml_match_iff: "yaml_match s \<noteq> None \<longleftrightarrow> has_block s"
proof (induction s)
  case Nil
  show ?case by (simp add: has_block_def)
next
  case (Cons c s)
  have "has_block (c # s) \<longleftrightarrow> match_here (c # s) \<noteq> None \<or> has_block s"
  proof
    assume "has_block (c # s)"
    then obtain pre mid post where
      eq: "c # s = pre @ ''```yaml'' @ mid @ ''```'' @ post \<or> c # s = pre @ ''```yml'' @ mid @ ''```'' @ post"
      unfolding has_block_def by blast
    show "match_here (c # s) \<noteq> None \<or> has_block s"
    proof (cases pre)
      case Nil
      with eq show ?thesis unfolding match_here_iff by auto
    next
      case (Cons p pre')
      with eq have "s = pre' @ ''```yaml'' @ mid @ ''```'' @ post \<or> s = pre' @ ''```yml'' @ mid @ ''```'' @ post"
        by auto
      then show ?thesis unfolding has_block_def by blast
    qed
  next
    assume "match_here (c # s) \<noteq> None \<or> has_block s"
    then show "has_block (c # s)"
    proof
      assume "match_here (c # s) \<noteq> None"
      then obtain mid post where
        "c # s = [] @ ''```yaml'' @ mid @ ''```'' @ post \<or> c # s = [] @ ''```yml'' @ mid @ ''```'' @ post"
        unfolding match_here_iff by auto
      then show ?thesis unfolding has_block_def by blast
    next
      assume "has_block s"
      then obtain pre mid post where
        "s = pre @ ''```yaml'' @ mid @ ''```'' @ post \<or> s = pre @ ''```yml'' @ mid @ ''```'' @ post"
        unfolding has_block_def by blast
      then have "c # s = (c # pre) @ ''```yaml'' @ mid @ ''```'' @ post
          \<or> c # s = (c # pre) @ ''```yml'' @ mid @ ''```'' @ post"
        by auto
      then show ?thesis unfolding has_block_def by blast
    qed
  qed
  with Cons.IH show ?case by (auto split: option.splits)
qed

text \<open>
  C6.  Whatever the prompt, when \<open>requestChatCompletion\<close> returns the empty text, each
  of the three extraction operations returns the empty list and no error; when it
  returns a text that is not empty and holds no fenced block, each of them fails with
  \<open>MissingStructuredBlock\<close>.
\<close>

theorem extraction_empty_or_missing_block:
  "requestChatCompletion cfg models_resp completion st = (Inr rawContent, st1) \<Longrightarrow>
   (rawContent = [] \<longrightarrow>
      summarizeTopics ev cfg models_resp completion st = (Inr (YSeq []), st1)
      \<and> analyzeUserTitles ev cfg models_resp completion st = (Inr (YSeq []), st1)
      \<and> analyzeGoldenQuotes ev cfg models_resp completion st = (Inr (YSeq []), st1))
   \<and> (rawContent \<noteq> [] \<and> \<not> has_block rawContent \<longrightarrow>
      summarizeTopics ev cfg models_resp completion st = (Inl MissingStructuredBlock, st1)
      \<and> analyzeUserTitles ev cfg models_resp completion st = (Inl MissingStructuredBlock, st1)
      \<and> analyzeGoldenQuotes ev cfg models_resp completion st = (Inl MissingStructuredBlock, st1))"
proof -
  assume req: "requestChatCompletion cfg models_resp completion st = (Inr rawContent, st1)"
  have empty: "callLLM ev cfg models_resp completion st = (Inr (YSeq []), st1)"
    if "rawContent = []"
    using req that by (simp add: callLLM_def)
  have missing: "callLLM ev cfg models_resp completion st = (Inl MissingStructuredBlock, st1)"
    if "rawContent \<noteq> []" "\<not> has_block rawContent"
  proof -
    from that(2) have "yaml_match rawContent = None"
      using yaml_match_iff [of rawContent] by simp
    with req that(1) show ?thesis by (simp add: callLLM_def)
  qed
  show ?thesis
    using empty missing
    by (simp add: summarizeTopics_def analyzeUserTitles_def analyzeGoldenQuotes_def or_empty_def)
qed

theorem extraction_empty_or_missing_block_witness:
  "summarizeTopics test_env (test_config\<lparr>model := Some ''m''\<rparr>) Rejected (Ok (Some ''  ''))
       new_llm_service
     = (Inr (YSeq []), new_llm_service\<lparr>resolvedModel := Some ''m''\<rparr>)
   \<and> analyzeGoldenQuotes test_env (test_config\<lparr>model := Some ''m''\<rparr>) Rejected (Ok (Some ''no yaml ```''))
       new_llm_service
     = (Inl MissingStructuredBlock, new_llm_service\<lparr>resolvedModel := Some ''m''\<rparr>)"
proof -
  let ?cfg = "test_config\<lparr>model := Some ''m''\<rparr>"
  let ?st1 = "new_llm_service\<lparr>resolvedModel := Some ''m''\<rparr>"
  have r1: "requestChatCompletion ?cfg Rejected (Ok (Some ''  '')) new_llm_service = (Inr [], ?st1)"
    by (simp add: requestChatCompletion_def resolveModel_def resolveModel_start_def
          new_llm_service_def test_config_def truthy_def trim_def is_space_def)
  have r2: "requestChatCompletion ?cfg Rejected (Ok (Some ''no yaml ```'')) new_llm_service
      = (Inr ''no yaml ```'', ?st1)"
    by (simp add: requestChatCompletion_def resolveModel_def resolveModel_start_def
          new_llm_service_def test_config_def truthy_def trim_def is_space_def)
  have "yaml_match ''no yaml ```'' = None"
    by (simp add: match_here_def)
  then have nb: "\<not> has_block ''no yaml ```''"
    using yaml_match_iff [of "''no yaml ```''"] by simp
  from extraction_empty_or_missing_block [OF r1, of test_env]
       extraction_empty_or_missing_block [OF r2, of test_env] nb
  show ?thesis by simp
qed

section \<open>Numbers: the division of two counters\<close>

lemma bit_length_bounds:
  "0 < n \<Longrightarrow> 2 ^ (bit_length n - 1) \<le> n \<and> n < 2 ^ bit_length n"
proof (induction n rule: bit_length.induct)
  case (1 n)
  show ?case
  proof (cases "n div 2 = 0")
    case True
    with "1.prems" have "n = 1" by linarith
    then show ?thesis by (simp add: bit_length.simps)
  next
    case False
    with "1.IH" "1.prems" have ih: "2 ^ (bit_length (n div 2) - 1) \<le> n div 2"
      "n div 2 < 2 ^ bit_length (n div 2)"
      by simp_all
    from False have pos: "0 < bit_length (n div 2)"
      by (subst bit_length.simps) simp
    from "1.prems" have len: "bit_length n = Suc (bit_length (n div 2))"
      by (subst bit_length.simps) simp
    from pos have "(2::nat) ^ bit_length (n div 2) = 2 * 2 ^ (bit_length (n div 2) - 1)"
      by (cases "bit_length (n div 2)") simp_all
    with ih(1) have "2 ^ bit_length (n div 2) \<le> 2 * (n div 2)" by simp
    then have low: "2 ^ bit_length (n div 2) \<le> n" by linarith
    from ih(2) have "n < 2 * 2 ^ bit_length (n div 2)" by linarith
    with low show ?thesis by (simp add: len)
  qed
qed

text \<open>The scaled quotient has a significand of 53 bits.\<close>

lemma fshift_normal:
  assumes a: "0 < a" "a < 2 ^ 53" and b: "0 < b"
  shows "b * 2 ^ 52 \<le> a * 2 ^ fshift a b" and "a * 2 ^ fshift a b < b * 2 ^ 53"
proof -
  let ?la = "bit_length a" and ?lb = "bit_length b"
  from bit_length_bounds [OF a(1)] have la: "2 ^ (?la - 1) \<le> a" "a < 2 ^ ?la" by simp_all
  from bit_length_bounds [OF b] have lb: "2 ^ (?lb - 1) \<le> b" "b < 2 ^ ?lb" by simp_all
  have la_pos: "0 < ?la" using a(1) by (subst bit_length.simps) simp
  have lb_pos: "0 < ?lb" using b by (subst bit_length.simps) simp
  have "?la \<le> 53"
  proof (rule ccontr)
    assume "\<not> ?la \<le> 53"
    then have "53 \<le> ?la - 1" by simp
    then have "(2::nat) ^ 53 \<le> 2 ^ (?la - 1)" by (rule power_increasing) simp
    with la(1) a(2) show False by linarith
  qed
  with lb_pos have le: "?la \<le> ?lb + 52" by simp
  define s0 where "s0 = ?lb + 52 - ?la"
  from le have sum: "?la + s0 = ?lb + 52" by (simp add: s0_def)
  from la_pos sum have sum1: "(?la - 1) + s0 = (?lb - 1) + 52"
    using lb_pos by linarith
  have a_low: "2 ^ ((?lb - 1) + 52) \<le> a * 2 ^ s0"
  proof -
    have "(2::nat) ^ ((?la - 1) + s0) = 2 ^ (?la - 1) * 2 ^ s0" by (rule power_add)
    also have "\<dots> \<le> a * 2 ^ s0" using la(1) by (rule mult_right_mono) simp
    finally show ?thesis by (simp only: sum1)
  qed
  have a_high: "a * 2 ^ s0 < 2 ^ (?lb + 52)"
  proof -
    have "a * 2 ^ s0 < 2 ^ ?la * 2 ^ s0" using la(2) by simp
    also have "\<dots> = 2 ^ (?la + s0)" by (simp add: power_add)
    finally show ?thesis by (simp only: sum)
  qed
  have b_low: "2 ^ ((?lb - 1) + 52) \<le> b * 2 ^ 52"
  proof -
    have "(2::nat) ^ ((?lb - 1) + 52) = 2 ^ (?lb - 1) * 2 ^ 52" by (rule power_add)
    also have "\<dots> \<le> b * 2 ^ 52" using lb(1) by (rule mult_right_mono) simp
    finally show ?thesis .
  qed
  have b_high: "b * 2 ^ 52 < 2 ^ (?lb + 52)"
  proof -
    have "b * 2 ^ 52 < 2 ^ ?lb * 2 ^ 52" using lb(2) by simp
    also have "\<dots> = 2 ^ (?lb + 52)" by (simp add: power_add)
    finally show ?thesis .
  qed
  have double: "(2::nat) ^ (?lb + 52) = 2 * 2 ^ ((?lb - 1) + 52)"
  proof -
    from lb_pos have "?lb + 52 = Suc ((?lb - 1) + 52)" by simp
    then show ?thesis by (simp only: power_Suc)
  qed
  have b53: "b * 2 ^ 53 = 2 * (b * 2 ^ 52)" by simp
  show "b * 2 ^ 52 \<le> a * 2 ^ fshift a b"
  proof (cases "b * 2 ^ 52 \<le> a * 2 ^ s0")
    case True
    then show ?thesis by (simp add: fshift_def s0_def [symmetric])
  next
    case False
    have "a * 2 ^ (s0 + 1) = 2 * (a * 2 ^ s0)" by simp
    with a_low b_high double have "b * 2 ^ 52 \<le> a * 2 ^ (s0 + 1)" by linarith
    with False show ?thesis by (simp add: fshift_def s0_def [symmetric])
  qed
  show "a * 2 ^ fshift a b < b * 2 ^ 53"
  proof (cases "b * 2 ^ 52 \<le> a * 2 ^ s0")
    case True
    from a_high b_low double b53 have "a * 2 ^ s0 < b * 2 ^ 53" by linarith
    with True show ?thesis by (simp add: fshift_def s0_def [symmetric])
  next
    case False
    have "a * 2 ^ (s0 + 1) = 2 * (a * 2 ^ s0)" by simp
    with False b53 have "a * 2 ^ (s0 + 1) < b * 2 ^ 53" by linarith
    with False show ?thesis by (simp add: fshift_def s0_def [symmetric])
  qed
qed

lemma round_half_even_near:
  assumes "0 < d"
  shows "\<bar>rat_of_nat (round_half_even n d) - of_nat n / of_nat d\<bar> \<le> 1 / 2"
proof -
  define q r where "q = n div d" and "r = n mod d"
  have "n = q * d + r" by (simp add: q_def r_def)
  then have "rat_of_nat n = of_nat q * of_nat d + of_nat r"
    by (metis of_nat_add of_nat_mult)
  with assms have quot: "rat_of_nat n / of_nat d = of_nat q + of_nat r / of_nat d"
    by (simp add: field_simps)
  have frac: "2 * r < d \<Longrightarrow> rat_of_nat r / of_nat d \<le> 1 / 2"
    "d \<le> 2 * r \<Longrightarrow> 1 / 2 \<le> rat_of_nat r / of_nat d"
    "r < d" "rat_of_nat r / of_nat d \<le> 1" "0 \<le> rat_of_nat r / of_nat d"
  proof -
    show "r < d" using assms by (simp add: r_def)
    then show "rat_of_nat r / of_nat d \<le> 1" using assms by (simp add: field_simps)
    show "0 \<le> rat_of_nat r / of_nat d" by simp
    show "rat_of_nat r / of_nat d \<le> 1 / 2" if "2 * r < d"
    proof -
      from that have "rat_of_nat (2 * r) \<le> of_nat d" by (simp only: of_nat_le_iff)
      with assms show ?thesis by (simp add: field_simps)
    qed
    show "1 / 2 \<le> rat_of_nat r / of_nat d" if "d \<le> 2 * r"
    proof -
      from that have "rat_of_nat d \<le> of_nat (2 * r)" by (simp only: of_nat_le_iff)
      with assms show ?thesis by (simp add: field_simps)
    qed
  qed
  have "round_half_even n d = q \<and> 2 * r \<le> d \<or> round_half_even n d = q + 1 \<and> d \<le> 2 * r"
    by (auto simp: round_half_even_def Let_def q_def r_def)
  then show ?thesis
  proof
    assume "round_half_even n d = q \<and> 2 * r \<le> d"
    then have m: "round_half_even n d = q" and "2 * r \<le> d" by simp_all
    then have "rat_of_nat r / of_nat d \<le> 1 / 2"
    proof (cases "2 * r < d")
      case True
      then show ?thesis by (rule frac(1))
    next
      case False
      with \<open>2 * r \<le> d\<close> have "d = 2 * r" by simp
      with assms show ?thesis by (simp add: field_simps)
    qed
    with frac(5) show ?thesis by (simp add: m quot)
  next
    assume "round_half_even n d = q + 1 \<and> d \<le> 2 * r"
    then have m: "round_half_even n d = q + 1" and "d \<le> 2 * r" by simp_all
    then have "1 / 2 \<le> rat_of_nat r / of_nat d" by (intro frac(2))
    with frac(4) show ?thesis by (simp add: m quot)
  qed
qed

text \<open>
  For counters below \<open>2 ^ 53\<close>, \<open>fdiv\<close> differs from the exact quotient by at most half a
  unit in the last place of a double, and \<open>toFixed\<close> is a nearest decimal.
\<close>

lemma fdiv_accurate:
  assumes a: "0 < a" "a < 2 ^ 53" and b: "0 < b"
  shows "\<bar>fdiv a b - of_nat a / of_nat b\<bar> \<le> (of_nat a / of_nat b) / 2 ^ 53"
proof -
  let ?s = "fshift a b"
  let ?m = "round_half_even (a * 2 ^ ?s) b"
  from round_half_even_near [OF b, of "a * 2 ^ ?s"]
  have "\<bar>rat_of_nat ?m - of_nat a * 2 ^ ?s / of_nat b\<bar> \<le> 1 / 2" by simp
  then have "\<bar>rat_of_nat ?m - of_nat a * 2 ^ ?s / of_nat b\<bar> / 2 ^ ?s \<le> (1 / 2) / 2 ^ ?s"
    by (rule divide_right_mono) simp
  moreover have "\<bar>rat_of_nat ?m - of_nat a * 2 ^ ?s / of_nat b\<bar> / 2 ^ ?s
      = \<bar>rat_of_nat ?m / 2 ^ ?s - of_nat a / of_nat b\<bar>"
  proof -
    have "rat_of_nat ?m / 2 ^ ?s - of_nat a / of_nat b
        = (rat_of_nat ?m - of_nat a * 2 ^ ?s / of_nat b) / 2 ^ ?s"
      by (simp add: field_simps)
    then show ?thesis by (simp add: abs_divide)
  qed
  ultimately have near: "\<bar>fdiv a b - of_nat a / of_nat b\<bar> \<le> (1 / 2) / 2 ^ ?s"
    using a(1) by (simp add: fdiv_def Let_def)
  from fshift_normal(1) [OF a b] have "rat_of_nat (b * 2 ^ 52) \<le> of_nat (a * 2 ^ ?s)"
    by (simp only: of_nat_le_iff)
  then have "rat_of_nat b * 2 ^ 52 \<le> of_nat a * 2 ^ ?s" by simp
  with b have "(1 / 2) / 2 ^ ?s \<le> (rat_of_nat a / of_nat b) / 2 ^ 53"
    by (simp add: field_simps)
  with near show ?thesis by linarith
qed

lemma toFixed_nearest:
  "\<bar>toFixed f x - x\<bar> \<le> 1 / (2 * 10 ^ f)"
proof -
  let ?y = "x * 10 ^ f"
  have "rat_of_int \<lfloor>?y + 1 / 2\<rfloor> \<le> ?y + 1 / 2" "?y + 1 / 2 < rat_of_int \<lfloor>?y + 1 / 2\<rfloor> + 1"
    by linarith+
  then have "\<bar>rat_of_int \<lfloor>?y + 1 / 2\<rfloor> - ?y\<bar> \<le> 1 / 2" by linarith
  then have "\<bar>rat_of_int \<lfloor>?y + 1 / 2\<rfloor> - ?y\<bar> / 10 ^ f \<le> (1 / 2) / 10 ^ f"
    by (rule divide_right_mono) simp
  moreover have "\<bar>rat_of_int \<lfloor>?y + 1 / 2\<rfloor> - ?y\<bar> / 10 ^ f = \<bar>toFixed f x - x\<bar>"
  proof -
    have "toFixed f x - x = (rat_of_int \<lfloor>?y + 1 / 2\<rfloor> - ?y) / 10 ^ f"
      by (simp add: toFixed_def field_simps)
    then show ?thesis by (simp add: abs_divide)
  qed
  ultimately show ?thesis by simp
qed

section \<open>Recency cache: proofs\<close>

lemma addToCache_other:
  "cacheKey m \<noteq> k \<Longrightarrow> addToCache m c k = c k"
  by (simp add: addToCache_def Let_def)

lemma addToCache_same:
  "cacheKey m = k \<Longrightarrow>
   addToCache m c k = Some (take cacheSize (m # (case c k of None \<Rightarrow> [] | Some xs \<Rightarrow> xs)))"
  by (auto simp: addToCache_def Let_def)

lemma take_Cons_take:
  "take n (x # take n xs) = take n (x # xs)"
  by (cases n) simp_all

lemma addAllToCache_snoc:
  "addAllToCache (ms @ [m]) = addToCache m (addAllToCache ms)"
  by (simp add: addAllToCache_def)

lemma addAllToCache_entry:
  "addAllToCache ms k = cache_entry k ms"
proof (induction ms rule: rev_induct)
  case Nil
  show ?case by (simp add: addAllToCache_def cache_entry_def)
next
  case (snoc m ms)
  show ?case
  proof (cases "cacheKey m = k")
    case False
    then show ?thesis
      using snoc by (simp add: addAllToCache_snoc addToCache_other cache_entry_def)
  next
    case True
    then show ?thesis
      using snoc
      by (simp add: addAllToCache_snoc addToCache_same cache_entry_def Let_def take_Cons_take)
  qed
qed

text \<open>
  C7.  After any sequence of puts on a new instance, the sequence stored under a key
  holds at most \<open>cacheSize\<close> messages and is the newest-first list of the last puts for
  that key (the reversed put order, cut to \<open>cacheSize\<close>); a key is present exactly when
  something was put for it; and \<open>cacheSize + 1\<close> puts for one key leave the \<open>cacheSize\<close>
  newest, newest first, the oldest (the first put) dropped.
\<close>

theorem cache_bounded_newest_first:
  "(case addAllToCache ms k of
      None \<Rightarrow> filter (\<lambda>m. cacheKey m = k) ms = []
    | Some xs \<Rightarrow> length xs \<le> cacheSize
        \<and> xs = take cacheSize (rev (filter (\<lambda>m. cacheKey m = k) ms)))
   \<and> (length ms = cacheSize + 1 \<and> (\<forall>m \<in> set ms. cacheKey m = k)
        \<longrightarrow> addAllToCache ms k = Some (rev (tl ms)))"
proof -
  have "filter (\<lambda>m. cacheKey m = k) ms = ms \<and> rev ms = last ms # rev (butlast ms) \<and> ms \<noteq> []"
    if "length ms = cacheSize + 1" "\<forall>m \<in> set ms. cacheKey m = k"
    using that by (cases ms rule: rev_cases) (auto simp: filter_id_conv)
  moreover have "take (length ms - 1) (rev ms) = rev (tl ms)"
    by (cases ms) (simp_all add: take_rev)
  ultimately show ?thesis
    by (auto simp: addAllToCache_entry cache_entry_def Let_def)
qed

theorem cache_bounded_newest_first_witness:
  "length (map (test_message ''7'') [0..<1001]) = cacheSize + 1
   \<and> addAllToCache (map (test_message ''7'') [0..<1001]) ''qq_7''
       = Some (rev (tl (map (test_message ''7'') [0..<1001])))"
proof -
  have len: "length (map (test_message ''7'') [0..<1001]) = cacheSize + 1"
    by (simp add: cacheSize_def)
  have keys: "\<forall>m \<in> set (map (test_message ''7'') [0..<1001]). cacheKey m = ''qq_7''"
    by (simp add: cacheKey_def test_message_def)
  from cache_bounded_newest_first [where ms = "map (test_message ''7'') [0..<1001]" and k = "''qq_7''"] len keys
  show ?thesis by blast
qed

section \<open>Statistics aggregator: the loop\<close>

lemma scan_elements_eq:
  "scan_elements els (p, s, n) =
     (p @ pure_text els,
      s\<lparr>replyCount := replyCount s + count_type ''reply'' els,
        atCount := atCount s + count_type ''at'' els,
        emojiStats := (emoji_bump ^^ emoji_count els) (emojiStats s)\<rparr>,
      n + emoji_count els)"
proof (induction els arbitrary: p s n)
  case Nil
  show ?case by (simp add: pure_text_def count_type_def emoji_count_def)
next
  case (Cons el els)
  show ?case
    by (simp add: Cons.IH pure_text_def count_type_def emoji_count_def funpow_swap1)
qed

lemma process_message_eq:
  "process_message tz m st =
     (if userId m \<noteq> [] \<and> obj_get (userStats st) (userId m) = Inherited
      then Inl TypeError else Inr (step tz m st))"
proof (cases "userId m = []")
  case True
  then show ?thesis by (simp add: process_message_def step_def)
next
  case False
  show ?thesis
  proof (cases "map_of (userStats st) (userId m)")
    case None
    with False show ?thesis
      by (simp add: process_message_def step_def obj_get_def Let_def scan_elements_eq
            apply_msg_def msg_chars_def msg_emojis_def msg_lines_def msg_elements_def)
  next
    case (Some s)
    with False show ?thesis
      by (simp add: process_message_def step_def obj_get_def Let_def scan_elements_eq
            apply_msg_def msg_chars_def msg_emojis_def msg_lines_def msg_elements_def)
  qed
qed

lemma not_inherited_empty [simp]: "\<not> inherited []"
  by (simp add: inherited_def object_prototype_keys_def)

lemma obj_get_Inherited_iff:
  "obj_get obj k = Inherited \<longleftrightarrow> map_of obj k = None \<and> inherited k"
  by (simp add: obj_get_def inherited_def split: option.splits)

lemma set_obj_insert [simp]:
  "set (obj_insert k v obj) = insert (k, v) (set obj)"
  by (induction obj) (auto split: if_splits)

lemma map_of_obj_set:
  "map_of (obj_set k v obj) k' = (if k' = k then Some v else map_of obj k')"
proof (cases "map_of obj k")
  case None
  then have "map_of (obj_insert k v obj) k' = (if k' = k then Some v else map_of obj k')"
    by (induction obj) (auto split: if_splits)
  with None show ?thesis by (simp add: obj_set_def)
next
  case (Some w)
  have "map_of (map (\<lambda>(k', v'). if k' = k then (k', v) else (k', v')) obj) k'
      = (if k' = k then map_option (\<lambda>_. v) (map_of obj k') else map_of obj k')"
    by (induction obj) auto
  with Some show ?thesis by (auto simp: obj_set_def)
qed

lemma keys_obj_set:
  "fst ` set (obj_set k v obj) = insert k (fst ` set obj)"
proof -
  have "dom (map_of (obj_set k v obj)) = insert k (dom (map_of obj))"
    by (auto simp: map_of_obj_set dom_def)
  then show ?thesis by (simp add: dom_map_of_conv_image_fst)
qed

lemma values_obj_set:
  "snd ` set (obj_set k v obj) \<subseteq> insert v (snd ` set obj)"
  by (auto simp: obj_set_def split: if_splits)

lemma obj_set_existing_keys:
  "map_of obj k \<noteq> None \<Longrightarrow> map fst (obj_set k v obj) = map fst obj"
  by (auto simp: obj_set_def)

text \<open>The loop raises exactly when a sender id names an inherited member.\<close>

lemma process_messages_append:
  "process_messages tz (xs @ ys) st =
     (case process_messages tz xs st of
        Inl e \<Rightarrow> Inl e
      | Inr st' \<Rightarrow> process_messages tz ys st')"
  by (induction xs arbitrary: st) (auto split: sum.splits)

lemma process_messages_ok:
  "\<forall>m \<in> set ms. \<not> inherited (userId m) \<Longrightarrow>
   process_messages tz ms st = Inr (foldl (\<lambda>st m. step tz m st) st ms)"
  by (induction ms arbitrary: st) (simp_all add: process_message_eq obj_get_Inherited_iff)

lemma own_keys_safe_step:
  "own_keys_safe st \<Longrightarrow> \<not> inherited (userId m) \<Longrightarrow> own_keys_safe (step tz m st)"
proof -
  assume safe: "own_keys_safe st" and m: "\<not> inherited (userId m)"
  have sub: "fst ` set (userStats (step tz m st)) \<subseteq> insert (userId m) (fst ` set (userStats st))"
  proof (cases "userId m = []")
    case True
    then have "userStats (step tz m st) = userStats st" by (simp add: step_def)
    then show ?thesis by (simp only: subset_insertI)
  next
    case False
    then obtain v where "userStats (step tz m st) = obj_set (userId m) v (userStats st)"
      by (simp add: step_def)
    then show ?thesis by (simp only: keys_obj_set subset_refl)
  qed
  show ?thesis
    unfolding own_keys_safe_def
  proof
    fix k
    assume "k \<in> fst ` set (userStats (step tz m st))"
    with sub have "k = userId m \<or> k \<in> fst ` set (userStats st)"
      by blast
    then show "\<not> inherited k"
    proof
      assume "k = userId m"
      with m show ?thesis by simp
    next
      assume "k \<in> fst ` set (userStats st)"
      with safe [unfolded own_keys_safe_def] show ?thesis by (rule bspec)
    qed
  qed
qed

lemma process_messages_raises:
  "\<exists>m \<in> set ms. inherited (userId m) \<Longrightarrow> own_keys_safe st \<Longrightarrow>
   process_messages tz ms st = Inl TypeError"
proof (induction ms arbitrary: st)
  case Nil
  then show ?case by simp
next
  case (Cons m ms)
  show ?case
  proof (cases "inherited (userId m)")
    case True
    then have ne: "userId m \<noteq> []" by auto
    have none: "map_of (userStats st) (userId m) = None"
    proof (rule ccontr)
      assume "map_of (userStats st) (userId m) \<noteq> None"
      then have "userId m \<in> fst ` set (userStats st)"
        by (simp add: map_of_eq_None_iff)
      with Cons.prems(2) True show False
        unfolding own_keys_safe_def by blast
    qed
    from ne none True have "process_message tz m st = Inl TypeError"
      by (simp add: process_message_eq obj_get_Inherited_iff)
    then show ?thesis by simp
  next
    case False
    from Cons.prems(1) False have ex: "\<exists>m \<in> set ms. inherited (userId m)"
      by auto
    from Cons.prems(2) False have safe: "own_keys_safe (step tz m st)"
      by (rule own_keys_safe_step)
    from False have "process_message tz m st = Inr (step tz m st)"
      by (simp add: process_message_eq obj_get_Inherited_iff)
    with Cons.IH [OF ex safe] show ?thesis by simp
  qed
qed

lemma calculateBasicStats_eq:
  "calculateBasicStats tz ms =
     (if \<exists>m \<in> set ms. inherited (userId m) then Inl TypeError else Inr (finish (run tz ms)))"
proof (cases "\<exists>m \<in> set ms. inherited (userId m)")
  case True
  moreover have "own_keys_safe initial_stats"
    by (simp add: own_keys_safe_def initial_stats_def)
  ultimately have "process_messages tz ms initial_stats = Inl TypeError"
    by (rule process_messages_raises)
  with True show ?thesis by (simp add: calculateBasicStats_def)
next
  case False
  then have "process_messages tz ms initial_stats = Inr (run tz ms)"
    by (simp add: process_messages_ok run_def)
  with False show ?thesis by (simp add: calculateBasicStats_def finish_def)
qed

lemma run_snoc: "run tz (ms @ [m]) = step tz m (run tz ms)"
  by (simp add: run_def)

lemma run_Nil: "run tz [] = initial_stats"
  by (simp add: run_def)

section \<open>Statistics aggregator: one message\<close>

lemma process_message_empty_sender:
  "userId m = [] \<Longrightarrow> process_message tz m st = Inr st"
  by (simp add: process_message_def)

lemma process_messages_skip:
  "userId m = [] \<Longrightarrow> process_messages tz (xs @ m # ys) st = process_messages tz (xs @ ys) st"
  by (simp add: process_messages_append process_message_empty_sender split: sum.splits)

text \<open>
  C10.  A message with the empty sender id is skipped: the statistics are those of the
  sequence without it (no user entry, and no character, emoji or line of it), and the
  report is that of the sequence without it, except that \<open>totalMessages\<close>, the length of
  the input, counts it.
\<close>

theorem empty_sender_skipped:
  "userId m = [] \<Longrightarrow>
     calculateBasicStats tz (xs @ m # ys) = calculateBasicStats tz (xs @ ys)
     \<and> analyzeGroupMessages ev cfg tz now (xs @ m # ys) gid t u q
         = map_sum id (\<lambda>r. r\<lparr>totalMessages := totalMessages r + 1\<rparr>)
             (analyzeGroupMessages ev cfg tz now (xs @ ys) gid t u q)"
proof -
  assume "userId m = []"
  then have eq: "calculateBasicStats tz (xs @ m # ys) = calculateBasicStats tz (xs @ ys)"
    by (simp add: calculateBasicStats_def process_messages_skip)
  show ?thesis
    by (simp add: eq analyzeGroupMessages_def Let_def split: sum.splits)
qed

theorem empty_sender_skipped_witness:
  "userId (test_message [] 0) = []
   \<and> calculateBasicStats utc [test_message [] 0, test_message ''7'' 2]
       = calculateBasicStats utc [test_message ''7'' 2]
   \<and> map_sum id totalMessages
       (analyzeGroupMessages test_env test_config utc ''now''
          [test_message [] 0, test_message ''7'' 2] ''g'' (Inr YNull) (Inr YNull) (Inr YNull))
       = Inr 2
   \<and> map_sum id (\<lambda>r. sum_list (map messageCount (report_userStats r)))
       (analyzeGroupMessages test_env test_config utc ''now''
          [test_message [] 0, test_message ''7'' 2] ''g'' (Inr YNull) (Inr YNull) (Inr YNull))
       = Inr 1"
proof -
  have e: "userId (test_message [] 0) = []"
    by (simp add: test_message_def)
  have ok: "\<not> (\<exists>m \<in> set [test_message ''7'' 2]. inherited (userId m))"
    by (simp add: test_message_def inherited_def object_prototype_keys_def)
  obtain s where users: "map snd (userStats (finish (run utc [test_message ''7'' 2]))) = [s]"
    and count: "messageCount s = 1"
    by (simp add: run_def step_def finish_def initial_stats_def obj_set_def
          apply_msg_def compute_ratios_def test_message_def getInitialUserStats_def)
  have base: "map_sum id (\<lambda>r. (totalMessages r, sum_list (map messageCount (report_userStats r))))
       (analyzeGroupMessages test_env test_config utc ''now''
          [test_message ''7'' 2] ''g'' (Inr YNull) (Inr YNull) (Inr YNull)) = Inr (1, 1)"
    using ok
    by (simp add: analyzeGroupMessages_def calculateBasicStats_eq Let_def sort_users_def
          slice0_def test_config_def users count del: set_simps)
  from empty_sender_skipped [OF e, where xs = "[]" and ys = "[test_message ''7'' 2]"
         and tz = utc and ev = test_env and cfg = test_config and now = "''now''"
         and gid = "''g''" and t = "Inr YNull" and u = "Inr YNull" and q = "Inr YNull"]
       base e
  show ?thesis
    by (auto simp: map_sum_def split: sum.splits)
qed

lemma step_totalChars:
  "userId m \<noteq> [] \<Longrightarrow> totalChars (step tz m st) = totalChars st + msg_chars m"
  by (simp add: step_def)

lemma step_user:
  "userId m \<noteq> [] \<Longrightarrow>
   map_of (userStats (step tz m st)) (userId m)
     = Some (apply_msg tz m (case map_of (userStats st) (userId m) of
                               Some s \<Rightarrow> s | None \<Rightarrow> getInitialUserStats m))"
  by (simp add: step_def map_of_obj_set)

lemma step_other:
  "k \<noteq> userId m \<Longrightarrow> map_of (userStats (step tz m st)) k = map_of (userStats st) k"
  by (simp add: step_def map_of_obj_set)

text \<open>
  C5 (as amended).  A message that is not skipped adds to the total and to its user's
  character count the length of the concatenated contents of its text segments when
  that text is not empty, and the length of its raw content when that text is empty
  (no segments, no text segment, or only empty ones).  \<open>pure_text\<close> is the text that
  the loop over the segments builds, by \<open>scan_elements_eq\<close>.
\<close>

theorem char_count_fallback:
  "process_message tz m st = Inr st' \<Longrightarrow> userId m \<noteq> [] \<Longrightarrow>
     totalChars st' = totalChars st
        + (if pure_text (msg_elements m) = [] then length (content m)
           else length (pure_text (msg_elements m)))
     \<and> map_option charCount (map_of (userStats st') (userId m))
        = Some ((case map_of (userStats st) (userId m) of None \<Rightarrow> 0 | Some s \<Rightarrow> charCount s)
                + (if pure_text (msg_elements m) = [] then length (content m)
                   else length (pure_text (msg_elements m))))"
proof -
  assume run: "process_message tz m st = Inr st'" and sender: "userId m \<noteq> []"
  then have st': "st' = step tz m st"
    by (simp add: process_message_eq split: if_splits)
  have "charCount (apply_msg tz m s) = charCount s + msg_chars m" for s
    by (simp add: apply_msg_def)
  with sender show ?thesis
    unfolding st'
    by (simp add: step_totalChars step_user msg_chars_def getInitialUserStats_def
          split: option.splits)
qed

theorem char_count_fallback_witness:
  "map_sum id totalChars (process_message utc image_message initial_stats) = Inr 5
   \<and> map_sum id (\<lambda>st. map_option charCount (map_of (userStats st) ''42''))
        (process_message utc image_message initial_stats) = Inr (Some 5)"
proof -
  have ok: "process_message utc image_message initial_stats = Inr (step utc image_message initial_stats)"
    by (simp add: process_message_eq obj_get_def initial_stats_def image_message_def
          object_prototype_keys_def)
  have sender: "userId image_message \<noteq> []"
    by (simp add: image_message_def)
  have n: "(if pure_text (msg_elements image_message) = [] then length (content image_message)
            else length (pure_text (msg_elements image_message))) = 5"
    by (simp add: image_message_def msg_elements_def pure_text_def)
  have i: "totalChars initial_stats = 0" "map_of (userStats initial_stats) ''42'' = None"
    "userId image_message = ''42''"
    by (simp_all add: initial_stats_def image_message_def)
  from char_count_fallback [OF ok sender] show ?thesis
    by (simp add: ok n i)
qed

text \<open>
  C5 as stated fails: the message \<open>image_message\<close> carries a segment, its text segments
  have the total length 0, and the length 5 of its raw content is counted.
\<close>

theorem char_count_counterexample:
  "elements image_message = Some [\<lparr>seg_type = ''image'', seg_text = None\<rparr>]
   \<and> length (pure_text [\<lparr>seg_type = ''image'', seg_text = None\<rparr>]) = 0
   \<and> length (content image_message) = 5
   \<and> map_sum id totalChars (calculateBasicStats utc [image_message]) = Inr 5"
  by (simp add: image_message_def pure_text_def calculateBasicStats_def process_message_def
        obj_get_def initial_stats_def object_prototype_keys_def Let_def obj_set_def)

section \<open>Statistics aggregator: the hours of a user\<close>

lemma getHours_less: "getHours tz d = Some h \<Longrightarrow> h < 24"
  by (auto simp: getHours_def nat_less_iff split: option.splits)

lemma getHours_None: "getHours tz d = None \<longleftrightarrow> d = None"
  by (simp add: getHours_def split: option.splits)

text \<open>Adding under an hour changes the entry of that hour; adding under \<open>NaN\<close> passes the hours.\<close>

lemma num_add_upt:
  "map fst hs = map Some [a..<b] \<Longrightarrow> a \<le> h \<Longrightarrow> h < b \<Longrightarrow>
   num_add (Some h) c (hs @ rest) = hs[h - a := (Some h, snd (hs ! (h - a)) + c)] @ rest"
proof (induction hs arbitrary: a)
  case Nil
  then have "[a..<b] = []" by simp
  then have "b \<le> a" by auto
  with Nil show ?case by simp
next
  case (Cons p hs)
  obtain k v where p: "p = (k, v)" by (cases p)
  from Cons.prems have "a < b" by simp
  then have "[a..<b] = a # [Suc a..<b]" by (rule upt_conv_Cons)
  with Cons.prems(1) p have k: "k = Some a" and keys: "map fst hs = map Some [Suc a..<b]"
    by simp_all
  show ?case
  proof (cases "h = a")
    case True
    with p k show ?thesis by simp
  next
    case False
    with Cons.prems have "Suc a \<le> h" by simp
    from Cons.IH [OF keys this Cons.prems(3)]
    have "num_add (Some h) c (hs @ rest)
        = hs[h - Suc a := (Some h, snd (hs ! (h - Suc a)) + c)] @ rest" .
    moreover from False Cons.prems(2) obtain d where d: "h - a = Suc d" "h - Suc a = d"
      by (cases "h - a") auto
    ultimately show ?thesis
      using False Cons.prems(2) p k by (simp add: d num_key_before_def)
  qed
qed

lemma num_add_NaN:
  "map fst hs = map Some ks \<Longrightarrow> num_add None c (hs @ rest) = hs @ num_add None c rest"
proof (induction hs arbitrary: ks)
  case Nil
  show ?case by simp
next
  case (Cons p hs)
  then obtain k ks' where "ks = k # ks'" "fst p = Some k" "map fst hs = map Some ks'"
    by (cases ks) auto
  with Cons.IH [of ks'] show ?case
    by (cases p) (simp add: num_key_before_def)
qed

text \<open>The per-hour counts of a list of messages, message by message.\<close>

lemma hour_counts_keys: "map fst (hour_counts tz xs) = map Some [0..<24]"
  by (simp add: hour_counts_def comp_def del: upt_Suc)

lemma user_hours_keys:
  "map fst (user_hours tz xs) = map Some [0..<24] @ (if undated xs = [] then [] else [None])"
  by (simp add: user_hours_def hour_counts_keys del: upt_Suc)

lemma hour_counts_snoc_hour:
  assumes h: "msg_hour tz m = Some h"
  shows "(hour_counts tz xs)[h := (Some h, snd (hour_counts tz xs ! h) + 1)] = hour_counts tz (xs @ [m])"
proof (rule nth_equalityI)
  show "length ((hour_counts tz xs)[h := (Some h, snd (hour_counts tz xs ! h) + 1)])
      = length (hour_counts tz (xs @ [m]))"
    by (simp add: hour_counts_def)
next
  fix i
  assume "i < length ((hour_counts tz xs)[h := (Some h, snd (hour_counts tz xs ! h) + 1)])"
  then have i: "i < 24" by (simp add: hour_counts_def)
  from h have "h < 24" unfolding msg_hour_def by (rule getHours_less)
  with i h show "(hour_counts tz xs)[h := (Some h, snd (hour_counts tz xs ! h) + 1)] ! i
      = hour_counts tz (xs @ [m]) ! i"
    by (cases "i = h") (simp_all add: hour_counts_def del: upt_Suc)
qed

lemma user_hours_snoc:
  "num_add (msg_hour tz m) (Suc 0) (user_hours tz xs) = user_hours tz (xs @ [m])"
proof (cases "msg_hour tz m")
  case None
  then have date: "timestamp m = None"
    by (simp add: msg_hour_def getHours_None)
  from None have same: "hour_counts tz (xs @ [m]) = hour_counts tz xs"
    by (simp add: hour_counts_def)
  from date have more: "undated (xs @ [m]) = undated xs @ [m]"
    by (simp add: undated_def)
  have "num_add None (Suc 0) (hour_counts tz xs @ rest) = hour_counts tz xs @ num_add None (Suc 0) rest"
    for rest
    using hour_counts_keys by (rule num_add_NaN)
  with None show ?thesis
    by (simp add: user_hours_def same more)
next
  case (Some h)
  then have h: "h < 24" unfolding msg_hour_def by (rule getHours_less)
  from Some have date: "timestamp m \<noteq> None"
    by (cases "timestamp m") (simp_all add: msg_hour_def getHours_def)
  then have same: "undated (xs @ [m]) = undated xs"
    by (simp add: undated_def)
  have "num_add (Some h) (Suc 0) (hour_counts tz xs @ rest)
      = (hour_counts tz xs)[h - 0 := (Some h, snd (hour_counts tz xs ! (h - 0)) + Suc 0)] @ rest"
    for rest
    using hour_counts_keys _ h by (rule num_add_upt) simp
  then have "num_add (Some h) (Suc 0) (hour_counts tz xs @ rest) = hour_counts tz (xs @ [m]) @ rest"
    for rest
    using hour_counts_snoc_hour [OF Some, of xs] by simp
  with Some show ?thesis
    by (simp add: user_hours_def same)
qed

text \<open>The sums of the per-hour counts.\<close>

lemma bucket_sum:
  "sum_list (map (\<lambda>h. length (filter (\<lambda>m. f m = Some h) xs)) [0..<n])
     = length (filter (\<lambda>m. case f m of None \<Rightarrow> False | Some h \<Rightarrow> h < n) xs)"
proof (induction n)
  case 0
  show ?case by (simp split: option.splits)
next
  case (Suc n)
  have "length (filter (\<lambda>m. case f m of None \<Rightarrow> False | Some h \<Rightarrow> h < n) xs)
        + length (filter (\<lambda>m. f m = Some n) xs)
      = length (filter (\<lambda>m. case f m of None \<Rightarrow> False | Some h \<Rightarrow> h < Suc n) xs)"
    by (induction xs) (auto split: option.splits)
  with Suc show ?case by simp
qed

lemma hour_counts_sum:
  "n \<le> 24 \<Longrightarrow>
   sum_list (map snd (take n (hour_counts tz xs)))
     = length (filter (\<lambda>m. case msg_hour tz m of None \<Rightarrow> False | Some h \<Rightarrow> h < n) xs)"
proof -
  assume "n \<le> 24"
  then have "take n (hour_counts tz xs)
      = map (\<lambda>h. (Some h, length (filter (\<lambda>m. msg_hour tz m = Some h) xs))) [0..<n]"
    by (simp add: hour_counts_def take_map min_def del: upt_Suc)
  then show ?thesis
    by (simp add: comp_def bucket_sum del: upt_Suc)
qed

lemma dated_hour:
  "(case msg_hour tz m of None \<Rightarrow> False | Some h \<Rightarrow> h < 24) \<longleftrightarrow> timestamp m \<noteq> None"
proof (cases "msg_hour tz m")
  case None
  then have "timestamp m = None" by (simp add: msg_hour_def getHours_None)
  with None show ?thesis by simp
next
  case (Some h)
  then have "h < 24" unfolding msg_hour_def by (rule getHours_less)
  moreover from Some have "timestamp m \<noteq> None"
    by (cases "timestamp m") (simp_all add: msg_hour_def getHours_def)
  ultimately show ?thesis using Some by simp
qed

lemma user_hours_sums:
  "sum_list (map snd (take 24 (user_hours tz xs))) = length (filter (\<lambda>m. timestamp m \<noteq> None) xs)"
  "sum_list (map snd (user_hours tz xs)) = length xs"
  "sum_list (map snd (take 6 (user_hours tz xs))) = length (filter (\<lambda>m. is_night (msg_hour tz m)) xs)"
proof -
  have len: "length (hour_counts tz xs) = 24"
    by (simp add: hour_counts_def)
  have all: "sum_list (map snd (hour_counts tz xs)) = length (filter (\<lambda>m. timestamp m \<noteq> None) xs)"
    using hour_counts_sum [of 24 tz xs] by (simp add: len dated_hour)
  show "sum_list (map snd (take 24 (user_hours tz xs))) = length (filter (\<lambda>m. timestamp m \<noteq> None) xs)"
    by (simp add: user_hours_def len all)
  have split: "length (filter (\<lambda>m. timestamp m \<noteq> None) xs) + length (undated xs) = length xs"
    unfolding undated_def by (induction xs) auto
  show "sum_list (map snd (user_hours tz xs)) = length xs"
  proof (cases "undated xs = []")
    case True
    with split show ?thesis by (simp add: user_hours_def all)
  next
    case False
    with split show ?thesis by (simp add: user_hours_def all)
  qed
  have "is_night (msg_hour tz m) = (case msg_hour tz m of None \<Rightarrow> False | Some h \<Rightarrow> h < 6)" for m
    by (simp add: is_night_def)
  then show "sum_list (map snd (take 6 (user_hours tz xs)))
      = length (filter (\<lambda>m. is_night (msg_hour tz m)) xs)"
    using hour_counts_sum [of 6 tz xs] by (simp add: user_hours_def len)
qed

section \<open>Statistics aggregator: the record of a user\<close>

lemma emoji_bump_funpow:
  "(emoji_bump ^^ n) [] = (if n = 0 then [] else [(''emoji'', n)])"
proof (induction n)
  case 0
  show ?case by simp
next
  case (Suc n)
  then show ?case by (simp add: emoji_bump_def obj_set_def)
qed

lemma funpow_apply_add: "(f ^^ n) ((f ^^ a) x) = (f ^^ (a + n)) x"
  by (metis add.commute comp_apply funpow_add)

lemma apply_msg_user_record:
  "userId m = uid \<Longrightarrow> xs \<noteq> [] \<Longrightarrow>
   apply_msg tz m (user_record tz uid xs) = user_record tz uid (xs @ [m])"
  by (simp add: apply_msg_def user_record_def user_hours_snoc [unfolded msg_hour_def]
        funpow_apply_add msg_hour_def)

lemma apply_msg_initial:
  "userId m = uid \<Longrightarrow> apply_msg tz m (getInitialUserStats m) = user_record tz uid [m]"
proof -
  have "map (\<lambda>i. (Some i, 0)) [0..<24] = user_hours tz []"
    by (simp add: user_hours_def hour_counts_def undated_def)
  then have "num_add (getHours tz (timestamp m)) 1 (map (\<lambda>i. (Some i, 0)) [0..<24]) = user_hours tz [m]"
    using user_hours_snoc [of tz m "[]"] by (simp add: msg_hour_def)
  moreover assume "userId m = uid"
  ultimately show ?thesis
    by (simp add: apply_msg_def user_record_def getInitialUserStats_def msg_hour_def)
qed

lemma step_user_eq:
  "userId m = uid \<Longrightarrow> uid \<noteq> [] \<Longrightarrow>
   map_of (userStats (step tz m st)) uid
     = Some (apply_msg tz m (case map_of (userStats st) uid of
                               Some s \<Rightarrow> s | None \<Rightarrow> getInitialUserStats m))"
  using step_user [of m tz st] by simp

text \<open>The entry of a user after the first loop.\<close>

lemma run_user:
  "map_of (userStats (run tz ms)) uid =
     (if uid = [] \<or> own_messages uid ms = [] then None
      else Some (user_record tz uid (own_messages uid ms)))"
proof (induction ms rule: rev_induct)
  case Nil
  show ?case by (simp add: run_Nil initial_stats_def own_messages_def)
next
  case (snoc m ms)
  show ?case
  proof (cases "userId m = uid")
    case False
    with snoc show ?thesis
      by (simp add: run_snoc step_other own_messages_def)
  next
    case same: True
    show ?thesis
    proof (cases "uid = []")
      case True
      with same snoc show ?thesis by (simp add: run_snoc step_def)
    next
      case False
      with same have sender: "userId m \<noteq> []" by simp
      show ?thesis
      proof (cases "own_messages uid ms = []")
        case True
        with snoc False have "map_of (userStats (run tz ms)) uid = None"
          by simp
        with same True False show ?thesis
          by (simp add: run_snoc step_user_eq apply_msg_initial own_messages_def)
      next
        case nonempty: False
        with snoc False
        have "map_of (userStats (run tz ms)) uid = Some (user_record tz uid (own_messages uid ms))"
          by simp
        with same nonempty False show ?thesis
          by (simp add: run_snoc step_user_eq apply_msg_user_record own_messages_def)
      qed
    qed
  qed
qed

lemma run_totals:
  "totalChars (run tz ms) = sum_list (map msg_chars (filter (\<lambda>m. userId m \<noteq> []) ms))
   \<and> totalEmojiCount (run tz ms) = sum_list (map msg_emojis (filter (\<lambda>m. userId m \<noteq> []) ms))"
  by (induction ms rule: rev_induct) (simp_all add: run_Nil initial_stats_def run_snoc step_def)

lemma map_of_finish:
  "map_of (userStats (finish st)) uid
     = map_option (compute_ratios (totalEmojiCount st)) (map_of (userStats st) uid)"
proof -
  have "map_of (map (\<lambda>(k, s). (k, f s)) xs) uid = map_option f (map_of xs uid)"
    for f :: "userstats \<Rightarrow> userstats" and xs
    by (induction xs) auto
  then show ?thesis by (simp add: finish_def)
qed

lemma finish_totals:
  "totalChars (finish st) = totalChars st" "totalEmojiCount (finish st) = totalEmojiCount st"
  by (simp_all add: finish_def)

text \<open>The keys of the aggregation object are distinct.\<close>

lemma obj_set_distinct:
  "distinct (map fst obj) \<Longrightarrow> distinct (map fst (obj_set k v obj))"
proof (cases "map_of obj k")
  case None
  assume d: "distinct (map fst obj)"
  from None have "k \<notin> fst ` set obj"
    by (simp add: map_of_eq_None_iff)
  with d have "distinct (map fst (obj_insert k v obj))"
    by (induction obj) (auto split: if_splits)
  with None show ?thesis by (simp add: obj_set_def)
next
  case (Some w)
  then have "map fst (obj_set k v obj) = map fst obj"
    by (simp add: obj_set_existing_keys)
  moreover assume "distinct (map fst obj)"
  ultimately show ?thesis by simp
qed

lemma run_distinct: "distinct (map fst (userStats (run tz ms)))"
proof (induction ms rule: rev_induct)
  case Nil
  show ?case by (simp add: run_Nil initial_stats_def)
next
  case (snoc m ms)
  then show ?case
    by (cases "userId m = []") (simp_all add: run_snoc step_def obj_set_distinct)
qed

lemma finish_entry:
  "(k, s) \<in> set (userStats (finish (run tz ms))) \<Longrightarrow>
   own_messages k ms \<noteq> []
   \<and> s = compute_ratios (totalEmojiCount (run tz ms)) (user_record tz k (own_messages k ms))"
proof -
  assume "(k, s) \<in> set (userStats (finish (run tz ms)))"
  then obtain s0 where s0: "(k, s0) \<in> set (userStats (run tz ms))"
    and s: "s = compute_ratios (totalEmojiCount (run tz ms)) s0"
    by (auto simp: finish_def)
  from s0 run_distinct have "map_of (userStats (run tz ms)) k = Some s0"
    by simp
  then have "own_messages k ms \<noteq> [] \<and> s0 = user_record tz k (own_messages k ms)"
    by (simp add: run_user split: if_splits)
  with s show ?thesis by simp
qed

section \<open>Statistics aggregator: the ratios\<close>

lemma toFixed_scaled:
  "toFixed f (of_nat m / 2 ^ s) = of_nat ((2 * m * 10 ^ f + 2 ^ s) div 2 ^ (s + 1)) / 10 ^ f"
proof -
  have "(of_nat m / 2 ^ s :: rat) * 10 ^ f + 1 / 2
      = of_nat (2 * m * 10 ^ f + 2 ^ s) / of_nat (2 ^ (s + 1))"
    by (simp add: field_simps)
  then have "\<lfloor>(of_nat m / 2 ^ s :: rat) * 10 ^ f + 1 / 2\<rfloor>
      = int ((2 * m * 10 ^ f + 2 ^ s) div 2 ^ (s + 1))"
    by (simp only: floor_divide_of_nat_eq)
  then show ?thesis
    by (simp add: toFixed_def)
qed

text \<open>The ratio of two counters, by natural-number arithmetic alone.\<close>

lemma toFixed_fdiv:
  "toFixed f (fdiv a b) =
     (if a = 0 then 0
      else of_nat ((2 * round_half_even (a * 2 ^ fshift a b) b * 10 ^ f + 2 ^ fshift a b)
                     div 2 ^ (fshift a b + 1)) / 10 ^ f)"
proof (cases "a = 0")
  case True
  have "\<lfloor>(1 :: rat) / 2\<rfloor> = 0"
    by (simp add: floor_eq_iff)
  with True show ?thesis by (simp add: fdiv_def toFixed_def)
next
  case False
  then show ?thesis
    by (simp only: fdiv_def Let_def if_False toFixed_scaled)
qed

lemma ratio_1_201: "toFixed 2 (fdiv 1 201) = 0"
  by (simp add: toFixed_fdiv fshift_def bit_length.simps round_half_even_def Let_def)

text \<open>
  C2 (as amended).  For every user in the result, with \<open>uid\<close> the user's id: the message
  count is the number of the user's messages in the input (so at least 1), the emoji
  ratio is the group-wide emoji total divided by that count as a double and rounded to
  two decimals by \<open>toFixed\<close>, whatever the user's own emoji count, which is the value
  under \<open>emoji\<close> in the user's \<open>emojiStats\<close>.
\<close>

theorem emoji_ratio_group_wide:
  "calculateBasicStats tz ms = Inr r \<Longrightarrow> map_of (userStats r) uid = Some s \<Longrightarrow>
     messageCount s = length (filter (\<lambda>m. userId m = uid) ms)
     \<and> 0 < messageCount s
     \<and> totalEmojiCount r = sum_list (map msg_emojis (filter (\<lambda>m. userId m \<noteq> []) ms))
     \<and> emojiRatio s = toFixed 2 (fdiv (totalEmojiCount r) (messageCount s))
     \<and> (case map_of (emojiStats s) ''emoji'' of None \<Rightarrow> 0 | Some n \<Rightarrow> n)
         = sum_list (map msg_emojis (filter (\<lambda>m. userId m = uid) ms))"
proof -
  assume res: "calculateBasicStats tz ms = Inr r" and user: "map_of (userStats r) uid = Some s"
  from res have r: "r = finish (run tz ms)"
    by (simp add: calculateBasicStats_eq split: if_splits)
  let ?own = "own_messages uid ms"
  let ?total = "totalEmojiCount (run tz ms)"
  from user have own: "?own \<noteq> []" and s: "s = compute_ratios ?total (user_record tz uid ?own)"
    unfolding r map_of_finish run_user by (auto split: if_splits)
  from own have len: "0 < length ?own" by simp
  have total: "totalEmojiCount r = ?total"
    by (simp add: r finish_totals)
  have "(case map_of ((emoji_bump ^^ n) []) ''emoji'' of None \<Rightarrow> 0 | Some k \<Rightarrow> k) = n" for n
    by (simp add: emoji_bump_funpow)
  with len show ?thesis
    unfolding total s
    by (simp add: compute_ratios_def user_record_def run_totals own_messages_def)
qed

lemma calculateBasicStats_user:
  "\<not> (\<exists>m \<in> set ms. inherited (userId m)) \<Longrightarrow>
   calculateBasicStats tz ms = Inr (finish (run tz ms))
   \<and> map_of (userStats (finish (run tz ms))) uid =
       (if uid = [] \<or> own_messages uid ms = [] then None
        else Some (compute_ratios (sum_list (map msg_emojis (filter (\<lambda>m. userId m \<noteq> []) ms)))
                     (user_record tz uid (own_messages uid ms))))"
  by (simp add: calculateBasicStats_eq map_of_finish run_user run_totals)

lemma ratio_2_2: "toFixed 2 (fdiv 2 2) = 1"
  by (simp add: toFixed_fdiv fshift_def bit_length.simps round_half_even_def Let_def)

lemma ratio_2_401: "toFixed 2 (fdiv 2 401) = 0"
  by (simp add: toFixed_fdiv fshift_def bit_length.simps round_half_even_def Let_def)

lemma emoji_messages_facts:
  "\<not> (\<exists>m \<in> set (emoji_messages n). inherited (userId m))"
  "own_messages ''7'' (emoji_messages n) = replicate n (test_message ''7'' 0)"
  "sum_list (map msg_emojis (filter (\<lambda>m. userId m \<noteq> []) (emoji_messages n))) = 2"
  "sum_list (map msg_emojis (filter (\<lambda>m. userId m = ''7'') (emoji_messages n))) = 0"
  "length (filter (\<lambda>m. userId m = ''7'') (emoji_messages n)) = n"
  by (simp_all add: emoji_messages_def image_message_def test_message_def inherited_def
        object_prototype_keys_def own_messages_def msg_emojis_def msg_elements_def
        emoji_count_def)

theorem emoji_ratio_group_wide_witness:
  "map_sum id
     (\<lambda>r. (totalEmojiCount r,
           map_option (\<lambda>s. (messageCount s, emojiRatio s,
                             case map_of (emojiStats s) ''emoji'' of None \<Rightarrow> 0 | Some n \<Rightarrow> n))
             (map_of (userStats r) ''7'')))
     (calculateBasicStats utc (emoji_messages 2))
   = Inr (2, Some (2, 1, 0))"
proof -
  let ?r = "finish (run utc (emoji_messages 2))"
  from calculateBasicStats_user [OF emoji_messages_facts(1), of utc 2 "''7''"]
  obtain s where res: "calculateBasicStats utc (emoji_messages 2) = Inr ?r"
    and user: "map_of (userStats ?r) ''7'' = Some s"
    by (simp add: emoji_messages_facts)
  from emoji_ratio_group_wide [OF res user] show ?thesis
    by (simp add: res user emoji_messages_facts ratio_2_2)
qed

text \<open>
  C2 as stated fails: in the group \<open>emoji_messages 401\<close> the emoji total is 2, the user
  \<open>7\<close> sent 401 messages and no emoji, and the emoji ratio of that user is 0.
\<close>

theorem emoji_ratio_zero_counterexample:
  "map_sum id
     (\<lambda>r. (totalEmojiCount r,
           map_option (\<lambda>s. (messageCount s, emojiRatio s, map_of (emojiStats s) ''emoji''))
             (map_of (userStats r) ''7'')))
     (calculateBasicStats utc (emoji_messages 401))
   = Inr (2, Some (401, 0, None))"
proof -
  have none: "msg_emojis (test_message ''7'' 0) = 0"
    by (simp add: msg_emojis_def msg_elements_def emoji_count_def test_message_def)
  note calculateBasicStats_user [OF emoji_messages_facts(1), of utc 401 "''7''"]
  then show ?thesis
    by (simp add: emoji_messages_facts finish_totals run_totals compute_ratios_def
          user_record_def ratio_2_401 none sum_list_replicate)
qed

section \<open>Statistics aggregator: the invariant of the hours\<close>

text \<open>
  C9 (as amended).  In every user record that the aggregation returns, \<open>activeHours\<close>
  has the keys 0 to 23 (in this order) and, after them, the key \<open>NaN\<close> exactly when a
  message of the user has an invalid date; the values of the hours 0 to 23 add up to
  the number of the user's messages with a valid date, all values add up to the
  user's message count, and \<open>nightMessages\<close> is the sum of the values of the hours 0
  to 5.  So for a user whose messages all have a valid date, \<open>activeHours\<close> has exactly
  the 24 keys 0 to 23 and its values add up to the user's message count.
\<close>

theorem active_hours_invariant:
  "calculateBasicStats tz ms = Inr r \<Longrightarrow> (k, s) \<in> set (userStats r) \<Longrightarrow>
     map fst (activeHours s)
       = map Some [0..<24] @ (if filter (\<lambda>m. userId m = k \<and> timestamp m = None) ms = [] then [] else [None])
     \<and> sum_list (map snd (take 24 (activeHours s)))
         = length (filter (\<lambda>m. userId m = k \<and> timestamp m \<noteq> None) ms)
     \<and> sum_list (map snd (activeHours s)) = messageCount s
     \<and> nightMessages s = sum_list (map snd (take 6 (activeHours s)))"
proof -
  assume res: "calculateBasicStats tz ms = Inr r" and mem: "(k, s) \<in> set (userStats r)"
  from res have r: "r = finish (run tz ms)"
    by (simp add: calculateBasicStats_eq split: if_splits)
  let ?own = "own_messages k ms"
  from mem [unfolded r] have s: "s = compute_ratios (totalEmojiCount (run tz ms)) (user_record tz k ?own)"
    by (simp add: finish_entry)
  have hours: "activeHours s = user_hours tz ?own" and count: "messageCount s = length ?own"
    and night: "nightMessages s = length (filter (\<lambda>m. is_night (msg_hour tz m)) ?own)"
    by (simp_all add: s compute_ratios_def user_record_def)
  have undated: "undated ?own = filter (\<lambda>m. userId m = k \<and> timestamp m = None) ms"
    by (simp add: undated_def own_messages_def conj_commute)
  have dated: "filter (\<lambda>m. timestamp m \<noteq> None) ?own
      = filter (\<lambda>m. userId m = k \<and> timestamp m \<noteq> None) ms"
    by (simp add: own_messages_def conj_commute)
  show ?thesis
    unfolding hours count night
    by (simp only: user_hours_keys user_hours_sums undated dated simp_thms)
qed

theorem active_hours_invariant_witness:
  "(case calculateBasicStats utc [image_message, test_message ''42'' 2] of
      Inl e \<Rightarrow> False
    | Inr r \<Rightarrow>
       (case userStats r of
          [(k, s)] \<Rightarrow> k = ''42'' \<and> messageCount s = 2
             \<and> map fst (activeHours s) = map Some [0..<24]
             \<and> sum_list (map snd (take 24 (activeHours s))) = 2
             \<and> sum_list (map snd (activeHours s)) = messageCount s
             \<and> nightMessages s = sum_list (map snd (take 6 (activeHours s)))
        | _ \<Rightarrow> False))"
proof -
  let ?ms = "[image_message, test_message ''42'' 2]"
  have ok: "\<not> (\<exists>m \<in> set ?ms. inherited (userId m))"
    by (simp add: test_message_def image_message_def inherited_def object_prototype_keys_def)
  then have res: "calculateBasicStats utc ?ms = Inr (finish (run utc ?ms))"
    by (simp only: calculateBasicStats_eq if_False)
  obtain s where users: "userStats (finish (run utc ?ms)) = [(''42'', s)]"
    and count: "messageCount s = 2"
    by (simp add: run_def step_def finish_def initial_stats_def obj_set_def
          apply_msg_def compute_ratios_def test_message_def image_message_def
          getInitialUserStats_def)
  have mem: "(''42'', s) \<in> set (userStats (finish (run utc ?ms)))"
    by (simp add: users)
  have dates: "filter (\<lambda>m. userId m = ''42'' \<and> timestamp m = None) ?ms = []"
    "length (filter (\<lambda>m. userId m = ''42'' \<and> timestamp m \<noteq> None) ?ms) = 2"
    by (simp_all add: test_message_def image_message_def)
  from active_hours_invariant [OF res mem, unfolded dates] show ?thesis
    by (simp add: res users count del: upt_Suc)
qed

text \<open>
  C9 as stated fails: for the one message \<open>undated_message\<close> of user \<open>7\<close>, whose date is
  invalid, the record of the user has a message count of 1 and 25 keys in
  \<open>activeHours\<close>, the last one \<open>NaN\<close>, and the values of the hours 0 to 23 add up to 0.
\<close>

theorem active_hours_invalid_date_counterexample:
  "map_sum id
     (\<lambda>r. map (\<lambda>(k, s). (k, messageCount s, length (activeHours s),
                          drop 24 (activeHours s),
                          sum_list (map snd (take 24 (activeHours s)))))
            (userStats r))
     (calculateBasicStats utc [undated_message])
   = Inr [(''7'', 1, 25, [(None, 1)], 0)]"
proof -
  let ?ms = "[undated_message]"
  have ok: "\<not> (\<exists>m \<in> set ?ms. inherited (userId m))"
    by (simp add: undated_message_def test_message_def inherited_def object_prototype_keys_def)
  have users: "map fst (userStats (finish (run utc ?ms))) = [''7'']"
    by (simp add: run_def step_def finish_def initial_stats_def obj_set_def
          undated_message_def test_message_def)
  have own: "own_messages ''7'' ?ms = ?ms"
    by (simp add: own_messages_def undated_message_def test_message_def)
  have undated: "undated ?ms = ?ms"
    by (simp add: undated_def undated_message_def)
  have len: "length (hour_counts utc ?ms) = 24"
    by (simp add: hour_counts_def)
  have dated: "filter (\<lambda>m. timestamp m \<noteq> None) ?ms = []"
    by (simp add: undated_message_def)
  have first: "take 24 (user_hours utc ?ms) = hour_counts utc ?ms"
    and last: "drop 24 (user_hours utc ?ms) = [(None, 1)]"
    and all: "length (user_hours utc ?ms) = 25"
    by (simp_all add: user_hours_def len undated)
  have zero: "sum_list (map snd (hour_counts utc ?ms)) = 0"
    using user_hours_sums(1) [of utc ?ms] unfolding first dated by simp
  from calculateBasicStats_user [OF ok, of utc "''7''"]
  have res: "calculateBasicStats utc ?ms = Inr (finish (run utc ?ms))"
    and user: "map_of (userStats (finish (run utc ?ms))) ''7''
      = Some (compute_ratios (sum_list (map msg_emojis (filter (\<lambda>m. userId m \<noteq> []) ?ms)))
                (user_record utc ''7'' ?ms))"
    by (simp_all add: own)
  from users obtain s where entry: "userStats (finish (run utc ?ms)) = [(''7'', s)]"
    by (cases "userStats (finish (run utc ?ms))") auto
  with user have s: "activeHours s = user_hours utc ?ms" "messageCount s = 1"
    by (auto simp: compute_ratios_def user_record_def)
  show ?thesis
    by (simp add: res entry s first last all zero)
qed

section \<open>Statistics aggregator: the order of the messages\<close>

lemma perm_length_filter:
  "mset xs = mset ys \<Longrightarrow> length (filter P xs) = length (filter P ys)"
  by (metis mset_filter size_mset)

lemma perm_sum_list_map:
  fixes f :: "'a \<Rightarrow> nat"
  shows "mset xs = mset ys \<Longrightarrow> sum_list (map f xs) = sum_list (map f ys)"
  by (metis mset_map sum_mset_sum_list)

lemma perm_foldl_max:
  "mset xs = mset ys \<Longrightarrow> foldl max_time a xs = foldl max_time a ys"
proof -
  assume eq: "mset xs = mset ys"
  have "fold (\<lambda>x s. max_time s x) xs = fold (\<lambda>x s. max_time s x) ys"
    by (rule fold_multiset_equiv [OF _ eq])
       (auto simp: fun_eq_iff max_time_def split: option.splits)
  then show ?thesis by (simp add: foldl_conv_fold)
qed

lemma perm_user_hours:
  "mset xs = mset ys \<Longrightarrow> user_hours tz xs = user_hours tz ys"
proof -
  assume eq: "mset xs = mset ys"
  then have "length (undated xs) = length (undated ys)"
    unfolding undated_def by (rule perm_length_filter)
  moreover from this have "undated xs = [] \<longleftrightarrow> undated ys = []"
    by (metis length_0_conv)
  ultimately show ?thesis
    by (simp add: user_hours_def hour_counts_def perm_length_filter [OF eq])
qed

lemma perm_user_record:
  assumes "mset xs = mset ys"
  shows "erase_nickname (user_record tz uid xs) = erase_nickname (user_record tz uid ys)"
proof -
  from assms have "mset (map timestamp xs) = mset (map timestamp ys)" by simp
  then have "foldl max_time (Some 0) (map timestamp xs) = foldl max_time (Some 0) (map timestamp ys)"
    by (rule perm_foldl_max)
  moreover from assms have "length xs = length ys"
    by (rule mset_eq_length)
  ultimately show ?thesis
    using assms
    by (simp add: erase_nickname_def user_record_def perm_user_hours [of xs ys]
          perm_sum_list_map [of xs ys] perm_length_filter [of xs ys])
qed

lemma erase_nickname_compute_ratios:
  "erase_nickname (compute_ratios n s) = compute_ratios n (erase_nickname s)"
  by (simp add: erase_nickname_def compute_ratios_def)

text \<open>
  C8.  For two inputs with the same messages in any order, the aggregation raises for
  both or for none; where it returns, the number of messages, the total character and
  emoji counts and, for every user id, the whole record of the user except the display
  name (all counters, the per-hour counts, the last-active time and the four ratios)
  are the same.
\<close>

theorem aggregation_order_insensitive:
  "mset ms = mset ms' \<Longrightarrow>
     (case (calculateBasicStats tz ms, calculateBasicStats tz ms') of
        (Inr r, Inr r') \<Rightarrow>
           length ms = length ms'
           \<and> totalChars r = totalChars r'
           \<and> totalEmojiCount r = totalEmojiCount r'
           \<and> (\<forall>uid. map_option erase_nickname (map_of (userStats r) uid)
                    = map_option erase_nickname (map_of (userStats r') uid))
      | (Inl e, Inl e') \<Rightarrow> e = e'
      | _ \<Rightarrow> False)"
proof -
  assume eq: "mset ms = mset ms'"
  then have sets: "set ms = set ms'" by (rule mset_eq_setD)
  show ?thesis
  proof (cases "\<exists>m \<in> set ms. inherited (userId m)")
    case True
    with sets show ?thesis by (simp add: calculateBasicStats_eq)
  next
    case False
    let ?sent = "\<lambda>m. userId m \<noteq> []"
    from eq have senders: "mset (filter ?sent ms) = mset (filter ?sent ms')" by simp
    have chars: "totalChars (run tz ms) = totalChars (run tz ms')"
      by (simp add: run_totals perm_sum_list_map [OF senders])
    have emojis: "totalEmojiCount (run tz ms) = totalEmojiCount (run tz ms')"
      by (simp add: run_totals perm_sum_list_map [OF senders])
    have user: "map_option erase_nickname (map_of (userStats (finish (run tz ms))) uid)
        = map_option erase_nickname (map_of (userStats (finish (run tz ms'))) uid)" for uid
    proof -
      from eq have own: "mset (own_messages uid ms) = mset (own_messages uid ms')"
        by (simp add: own_messages_def)
      then have "own_messages uid ms = [] \<longleftrightarrow> own_messages uid ms' = []"
        by (metis mset_zero_iff)
      with perm_user_record [OF own, of tz uid] show ?thesis
        by (simp add: map_of_finish run_user emojis erase_nickname_compute_ratios)
    qed
    from False sets have "\<not> (\<exists>m \<in> set ms'. inherited (userId m))" by simp
    with False user chars emojis mset_eq_length [OF eq] show ?thesis
      by (simp add: calculateBasicStats_eq finish_totals)
  qed
qed

theorem aggregation_order_insensitive_witness:
  "mset [image_message, test_message ''7'' 2, test_message ''42'' 3]
     = mset [test_message ''42'' 3, test_message ''7'' 2, image_message]
   \<and> (case (calculateBasicStats utc [image_message, test_message ''7'' 2, test_message ''42'' 3],
            calculateBasicStats utc [test_message ''42'' 3, test_message ''7'' 2, image_message]) of
        (Inr r, Inr r') \<Rightarrow>
           totalChars r = totalChars r'
           \<and> totalEmojiCount r = totalEmojiCount r'
           \<and> map_option erase_nickname (map_of (userStats r) ''42'')
               = map_option erase_nickname (map_of (userStats r') ''42'')
           \<and> map_option nickname (map_of (userStats r) ''42'') = Some ''u42''
           \<and> map_option nickname (map_of (userStats r') ''42'') = Some ''u''
      | _ \<Rightarrow> False)"
proof -
  let ?a = "[image_message, test_message ''7'' 2, test_message ''42'' 3]"
  let ?b = "[test_message ''42'' 3, test_message ''7'' 2, image_message]"
  have perm: "mset ?a = mset ?b" by simp
  have ok: "\<not> (\<exists>m \<in> set ?a. inherited (userId m))" "\<not> (\<exists>m \<in> set ?b. inherited (userId m))"
    by (simp_all add: test_message_def image_message_def inherited_def object_prototype_keys_def)
  have names: "map_option nickname (map_of (userStats (finish (run utc ?a))) ''42'') = Some ''u42''"
    "map_option nickname (map_of (userStats (finish (run utc ?b))) ''42'') = Some ''u''"
    by (simp_all add: map_of_finish run_user own_messages_def test_message_def image_message_def
          user_record_def compute_ratios_def)
  have ra: "calculateBasicStats utc ?a = Inr (finish (run utc ?a))"
    using ok(1) by (simp only: calculateBasicStats_eq if_False)
  have rb: "calculateBasicStats utc ?b = Inr (finish (run utc ?b))"
    using ok(2) by (simp only: calculateBasicStats_eq if_False)
  from aggregation_order_insensitive [OF perm, of utc]
  have "totalChars (finish (run utc ?a)) = totalChars (finish (run utc ?b))
      \<and> totalEmojiCount (finish (run utc ?a)) = totalEmojiCount (finish (run utc ?b))
      \<and> map_option erase_nickname (map_of (userStats (finish (run utc ?a))) ''42'')
          = map_option erase_nickname (map_of (userStats (finish (run utc ?b))) ''42'')"
    unfolding ra rb by simp
  with perm names show ?thesis
    unfolding ra rb by simp
qed

section \<open>Array indices\<close>

lemma index_value_snoc:
  "index_value (s @ [c]) = 10 * index_value s + (of_char c - 48)"
  by (simp add: index_value_def)

lemma digit_char:
  assumes "is_digit c"
  shows "char_of (48 + (of_char c - 48 :: nat)) = c" and "(of_char c - 48 :: nat) < 10"
proof -
  from assms have range: "48 \<le> (of_char c :: nat)" "(of_char c :: nat) \<le> 57"
    by (simp_all add: is_digit_def)
  then have "48 + (of_char c - 48 :: nat) = of_char c" by linarith
  then show "char_of (48 + (of_char c - 48 :: nat)) = c" by simp
  from range show "(of_char c - 48 :: nat) < 10" by linarith
qed

lemma digit_nonzero:
  assumes "is_digit c" and "c \<noteq> CHR ''0''"
  shows "48 < (of_char c :: nat)"
proof -
  have "(of_char c :: nat) \<noteq> of_char (CHR ''0'')"
    using assms(2) by (simp only: of_char_eq_iff not_False_eq_True)
  then have "(of_char c :: nat) \<noteq> 48" by simp
  moreover from assms(1) have "48 \<le> (of_char c :: nat)" by (simp add: is_digit_def)
  ultimately show ?thesis by linarith
qed

lemma index_value_pos:
  "list_all is_digit s \<Longrightarrow> s \<noteq> [] \<Longrightarrow> hd s \<noteq> CHR ''0'' \<Longrightarrow> 0 < index_value s"
proof (induction s rule: rev_induct)
  case Nil
  then show ?case by simp
next
  case (snoc c s)
  show ?case
  proof (cases "s = []")
    case True
    with snoc.prems show ?thesis
      by (simp add: index_value_def digit_nonzero)
  next
    case False
    with snoc have "0 < index_value s" by simp
    then show ?thesis by (simp add: index_value_snoc)
  qed
qed

text \<open>An array index is the decimal rendering of its value.\<close>

lemma show_nat_index_value:
  "s \<noteq> [] \<Longrightarrow> list_all is_digit s \<Longrightarrow> (hd s = CHR ''0'' \<longrightarrow> s = ''0'') \<Longrightarrow>
   show_nat (index_value s) = s"
proof (induction s rule: rev_induct)
  case Nil
  then show ?case by simp
next
  case (snoc c s)
  from snoc.prems(2) have c: "is_digit c" and digits: "list_all is_digit s" by simp_all
  let ?d = "(of_char c - 48 :: nat)"
  from digit_char [OF c] have chr: "char_of (48 + ?d) = c" and lt10: "?d < 10" by simp_all
  show ?case
  proof (cases "s = []")
    case True
    with chr lt10 show ?thesis
      by (simp add: index_value_def show_nat.simps)
  next
    case False
    with snoc.prems(3) have lead: "hd s \<noteq> CHR ''0''" by auto
    with snoc.IH False digits have ih: "show_nat (index_value s) = s" by simp
    from index_value_pos [OF digits False lead] have "10 \<le> 10 * index_value s + ?d" by simp
    then have "show_nat (10 * index_value s + ?d)
        = show_nat ((10 * index_value s + ?d) div 10) @ [char_of (48 + (10 * index_value s + ?d) mod 10)]"
      by (subst show_nat.simps) simp
    with lt10 ih chr show ?thesis
      by (simp add: index_value_snoc)
  qed
qed

lemma index_value_inj:
  "is_array_index s \<Longrightarrow> is_array_index t \<Longrightarrow> index_value s = index_value t \<Longrightarrow> s = t"
  by (metis is_array_index_def show_nat_index_value)

section \<open>The order of the users\<close>

lemma first_pos_snoc:
  "uid \<in> userId ` set ms \<Longrightarrow> first_pos uid (ms @ [m]) = first_pos uid ms"
  by (auto simp: first_pos_def)

lemma first_pos_less:
  "uid \<in> userId ` set ms \<Longrightarrow> first_pos uid ms < length ms"
  unfolding first_pos_def by (induction ms) auto

lemma first_pos_new:
  "uid \<notin> userId ` set ms \<Longrightarrow> first_pos uid (ms @ [m]) \<ge> length ms"
proof -
  assume "uid \<notin> userId ` set ms"
  then have "takeWhile (\<lambda>m. userId m \<noteq> uid) ms = ms"
    by auto
  then show ?thesis
    by (simp add: first_pos_def)
qed

lemma run_keys:
  "fst ` set (userStats (run tz ms)) = {uid. uid \<noteq> [] \<and> uid \<in> userId ` set ms}"
proof -
  have "uid \<in> dom (map_of (userStats (run tz ms))) \<longleftrightarrow> uid \<noteq> [] \<and> uid \<in> userId ` set ms" for uid
    by (auto simp: run_user own_messages_def filter_empty_conv split: if_splits)
  then show ?thesis
    by (auto simp: dom_map_of_conv_image_fst [symmetric])
qed

text \<open>A new key goes to its place in the enumeration order.\<close>

lemma sorted_obj_insert:
  assumes sorted: "sorted_wrt (\<lambda>p q. enum_before ms (fst p) (fst q)) obj"
    and new: "k \<notin> fst ` set obj"
    and later: "\<forall>p \<in> set obj. first_pos (fst p) ms < first_pos k ms"
  shows "sorted_wrt (\<lambda>p q. enum_before ms (fst p) (fst q)) (obj_insert k v obj)"
  using assms
proof (induction obj)
  case Nil
  show ?case by simp
next
  case (Cons p obj)
  obtain k' v' where p: "p = (k', v')" by (cases p)
  from Cons.prems p have ne: "k' \<noteq> k" by auto
  show ?case
  proof (cases "key_before k k'")
    case True
    have "enum_before ms k (fst q)" if "q \<in> set (p # obj)" for q
    proof (cases "q = p")
      case True
      with \<open>key_before k k'\<close> p show ?thesis
        by (auto simp: key_before_def enum_before_def)
    next
      case False
      with that have "q \<in> set obj" by simp
      with Cons.prems(1) p have "enum_before ms k' (fst q)" by auto
      with True show ?thesis
        by (auto simp: key_before_def enum_before_def split: if_splits)
    qed
    with Cons.prems(1) True p show ?thesis by simp
  next
    case False
    from Cons.prems p have "first_pos k' ms < first_pos k ms" by simp
    with False ne have "enum_before ms k' k"
      by (auto simp: key_before_def enum_before_def dest: index_value_inj)
    moreover from Cons.prems have "sorted_wrt (\<lambda>p q. enum_before ms (fst p) (fst q)) (obj_insert k v obj)"
      by (intro Cons.IH) auto
    ultimately show ?thesis
      using Cons.prems(1) False p by auto
  qed
qed

text \<open>After the first loop, the keys stand in the enumeration order.\<close>

lemma run_sorted:
  "sorted_wrt (\<lambda>p q. enum_before ms (fst p) (fst q)) (userStats (run tz ms))"
proof (induction ms rule: rev_induct)
  case Nil
  show ?case by (simp add: run_Nil initial_stats_def)
next
  case (snoc m ms)
  let ?obj = "userStats (run tz ms)"
  have keys: "fst p \<in> userId ` set ms" if "p \<in> set ?obj" for p
    using that run_keys [of tz ms] by auto
  have old: "sorted_wrt (\<lambda>p q. enum_before (ms @ [m]) (fst p) (fst q)) ?obj"
    using _ snoc
  proof (rule sorted_wrt_mono_rel)
    fix p q
    assume "p \<in> set ?obj" "q \<in> set ?obj" "enum_before ms (fst p) (fst q)"
    then show "enum_before (ms @ [m]) (fst p) (fst q)"
      by (simp add: enum_before_def first_pos_snoc keys)
  qed
  show ?case
  proof (cases "userId m = []")
    case True
    with old show ?thesis by (simp add: run_snoc step_def)
  next
    case sender: False
    define v where "v = apply_msg tz m (case map_of ?obj (userId m) of
        Some s \<Rightarrow> s | None \<Rightarrow> getInitialUserStats m)"
    from sender have step: "userStats (run tz (ms @ [m])) = obj_set (userId m) v ?obj"
      by (simp add: run_snoc step_def v_def)
    show ?thesis
    proof (cases "map_of ?obj (userId m)")
      case (Some s)
      then have "map fst (obj_set (userId m) v ?obj) = map fst ?obj"
        by (simp add: obj_set_existing_keys)
      then have "sorted_wrt (enum_before (ms @ [m])) (map fst (obj_set (userId m) v ?obj))"
        using old by (simp add: sorted_wrt_map)
      then show ?thesis
        by (simp add: step sorted_wrt_map)
    next
      case None
      then have new: "userId m \<notin> fst ` set ?obj"
        by (simp add: map_of_eq_None_iff)
      with sender have unseen: "userId m \<notin> userId ` set ms"
        using run_keys [of tz ms] by auto
      have "\<forall>p \<in> set ?obj. first_pos (fst p) (ms @ [m]) < first_pos (userId m) (ms @ [m])"
      proof
        fix p
        assume "p \<in> set ?obj"
        then have "fst p \<in> userId ` set ms" by (rule keys)
        then have "first_pos (fst p) (ms @ [m]) < length ms"
          by (simp add: first_pos_snoc first_pos_less)
        with first_pos_new [OF unseen, of m]
        show "first_pos (fst p) (ms @ [m]) < first_pos (userId m) (ms @ [m])"
          by simp
      qed
      with old new have "sorted_wrt (\<lambda>p q. enum_before (ms @ [m]) (fst p) (fst q))
          (obj_insert (userId m) v ?obj)"
        by (rule sorted_obj_insert)
      with None show ?thesis by (simp add: step obj_set_def)
    qed
  qed
qed

lemma run_ids:
  "(k, s) \<in> set (userStats (run tz ms)) \<Longrightarrow> stat_userId s = k"
proof (induction ms arbitrary: k s rule: rev_induct)
  case Nil
  then show ?case by (simp add: run_Nil initial_stats_def)
next
  case (snoc m ms)
  show ?case
  proof (cases "userId m = []")
    case True
    with snoc show ?thesis by (simp add: run_snoc step_def)
  next
    case False
    let ?old = "case map_of (userStats (run tz ms)) (userId m) of
        Some s \<Rightarrow> s | None \<Rightarrow> getInitialUserStats m"
    have old: "stat_userId ?old = userId m"
    proof (cases "map_of (userStats (run tz ms)) (userId m)")
      case None
      then show ?thesis by (simp add: getInitialUserStats_def)
    next
      case (Some s')
      then have "(userId m, s') \<in> set (userStats (run tz ms))"
        by (rule map_of_SomeD)
      with snoc.IH Some show ?thesis by simp
    qed
    from snoc.prems False
    have "(k, s) \<in> set (obj_set (userId m) (apply_msg tz m ?old) (userStats (run tz ms)))"
      by (simp add: run_snoc step_def)
    then have "(k, s) = (userId m, apply_msg tz m ?old) \<or> (k, s) \<in> set (userStats (run tz ms))"
      by (auto simp: obj_set_def split: if_splits)
    with old snoc.IH show ?thesis
      by (auto simp: apply_msg_def)
  qed
qed

text \<open>A stable sort keeps the given order among equal keys.\<close>

lemma insort_key_wrt:
  fixes f :: "'a \<Rightarrow> 'k::linorder"
  assumes "sorted_wrt (\<lambda>a b. f a < f b \<or> f a = f b \<and> R a b) ys"
    and "\<forall>y \<in> set ys. R x y"
  shows "sorted_wrt (\<lambda>a b. f a < f b \<or> f a = f b \<and> R a b) (insort_key f x ys)"
  using assms
proof (induction ys)
  case Nil
  show ?case by simp
next
  case (Cons y ys)
  show ?case
  proof (cases "f x \<le> f y")
    case True
    have "f x < f z \<or> f x = f z \<and> R x z" if "z \<in> set (y # ys)" for z
    proof -
      from that Cons.prems(1) have "f y \<le> f z" by auto
      with True have "f x \<le> f z" by simp
      moreover from that Cons.prems(2) have "R x z" by auto
      ultimately show ?thesis by auto
    qed
    with Cons.prems(1) True show ?thesis by simp
  next
    case False
    from Cons.prems have "sorted_wrt (\<lambda>a b. f a < f b \<or> f a = f b \<and> R a b) (insort_key f x ys)"
      by (intro Cons.IH) auto
    with Cons.prems(1) False show ?thesis
      by (auto simp: set_insort_key)
  qed
qed

lemma sort_key_wrt:
  fixes f :: "'a \<Rightarrow> 'k::linorder"
  shows "sorted_wrt R xs \<Longrightarrow>
    sorted_wrt (\<lambda>a b. f a < f b \<or> f a = f b \<and> R a b) (sort_key f xs)"
proof (induction xs)
  case Nil
  show ?case by simp
next
  case (Cons x xs)
  then have "sorted_wrt (\<lambda>a b. f a < f b \<or> f a = f b \<and> R a b) (sort_key f xs)"
    and "\<forall>y \<in> set (sort_key f xs). R x y"
    by simp_all
  then show ?case
    by (simp add: insort_key_wrt)
qed

lemma sort_users_twice: "sort_users (sort_users users) = sort_users users"
  unfolding sort_users_def by (rule sort_key_id_if_sorted) (rule sorted_sort_key)

lemma slice0_take: "\<exists>n. slice0 k xs = take n xs"
  by (auto simp: slice0_def)

text \<open>The users of the result, in the enumeration order of the aggregation object.\<close>

lemma users_enumerated:
  "sorted_wrt (\<lambda>a b. enum_before ms (stat_userId a) (stat_userId b))
     (map snd (userStats (finish (run tz ms))))"
proof -
  have ids: "stat_userId (snd p) = fst p" if "p \<in> set (userStats (run tz ms))" for p
    using that run_ids [of "fst p" "snd p" tz ms] by simp
  have "sorted_wrt (\<lambda>p q. enum_before ms (stat_userId (snd p)) (stat_userId (snd q)))
      (userStats (run tz ms))"
    using _ run_sorted [of ms tz]
  proof (rule sorted_wrt_mono_rel)
    fix p q
    assume "p \<in> set (userStats (run tz ms))" "q \<in> set (userStats (run tz ms))"
      "enum_before ms (fst p) (fst q)"
    then show "enum_before ms (stat_userId (snd p)) (stat_userId (snd q))"
      by (simp add: ids)
  qed
  then show ?thesis
    by (simp add: finish_def sorted_wrt_map compute_ratios_def case_prod_unfold)
qed

text \<open>
  C4 (as amended).  In the ranked user list of the report, a user stands before every
  user with a smaller message count, and two users with equal message counts stand in
  the enumeration order of the aggregation object: a user whose id is an array index
  (a canonical decimal string below \<open>2 ^ 32 - 1\<close>) before a user whose id is not, two
  users with such ids by ascending numeric value of the id, and two users with other
  ids by their first appearance in the input.
\<close>

theorem ranking_order:
  "analyzeGroupMessages ev cfg tz now ms gid t u q = Inr r \<Longrightarrow>
   i < j \<Longrightarrow> j < length (report_userStats r) \<Longrightarrow>
     messageCount (report_userStats r ! j) \<le> messageCount (report_userStats r ! i)
     \<and> (messageCount (report_userStats r ! i) = messageCount (report_userStats r ! j) \<longrightarrow>
          enum_before ms (stat_userId (report_userStats r ! i))
                         (stat_userId (report_userStats r ! j)))"
proof -
  assume res: "analyzeGroupMessages ev cfg tz now ms gid t u q = Inr r"
    and ij: "i < j" "j < length (report_userStats r)"
  let ?users = "map snd (userStats (finish (run tz ms)))"
  let ?f = "\<lambda>u. - int (messageCount u)"
  let ?R = "\<lambda>a b. enum_before ms (stat_userId a) (stat_userId b)"
  from res have stats: "calculateBasicStats tz ms = Inr (finish (run tz ms))"
    by (auto simp: analyzeGroupMessages_def calculateBasicStats_eq split: if_splits)
  with res have "report_userStats r = slice0 (maxUsersInReport cfg) (sort_users (sort_users ?users))"
    by (auto simp: analyzeGroupMessages_def Let_def)
  then obtain n where ranked: "report_userStats r = take n (sort_key ?f ?users)"
    using slice0_take [of "maxUsersInReport cfg" "sort_users ?users"]
    by (auto simp: sort_users_twice) (simp add: sort_users_def)
  have "sorted_wrt (\<lambda>a b. ?f a < ?f b \<or> ?f a = ?f b \<and> ?R a b) (sort_key ?f ?users)"
    using users_enumerated by (rule sort_key_wrt)
  then have "sorted_wrt (\<lambda>a b. ?f a < ?f b \<or> ?f a = ?f b \<and> ?R a b) (report_userStats r)"
    unfolding ranked by (rule sorted_wrt_take)
  from sorted_wrt_nth_less [OF this ij] show ?thesis
    by auto
qed

lemma analyze_users:
  "calculateBasicStats tz ms = Inr stats \<Longrightarrow>
   \<exists>r. analyzeGroupMessages ev cfg tz now ms gid t u q = Inr r
       \<and> report_userStats r
           = slice0 (maxUsersInReport cfg) (sort_users (map snd (userStats stats)))"
  by (simp add: analyzeGroupMessages_def Let_def sort_users_twice)

lemma array_index_examples:
  "is_array_index ''1''" "is_array_index ''2''" "is_array_index ''7''"
  "\<not> is_array_index ''bob''" "\<not> is_array_index ''alice''"
  "index_value ''1'' = 1" "index_value ''2'' = 2"
  by (simp_all add: is_array_index_def is_digit_def index_value_def)

lemma numeric_senders_users:
  "\<exists>a b. calculateBasicStats utc numeric_senders = Inr (finish (run utc numeric_senders))
     \<and> userStats (finish (run utc numeric_senders)) = [(''1'', a), (''2'', b)]
     \<and> stat_userId a = ''1'' \<and> stat_userId b = ''2''
     \<and> messageCount a = 1 \<and> messageCount b = 1"
proof -
  have ok: "\<not> (\<exists>m \<in> set numeric_senders. inherited (userId m))"
    by (simp add: numeric_senders_def test_message_def inherited_def object_prototype_keys_def)
  then have "calculateBasicStats utc numeric_senders = Inr (finish (run utc numeric_senders))"
    by (simp only: calculateBasicStats_eq if_False)
  then show ?thesis
    by (simp add: numeric_senders_def run_def step_def finish_def initial_stats_def obj_set_def
          key_before_def array_index_examples apply_msg_def compute_ratios_def
          test_message_def getInitialUserStats_def)
qed

text \<open>
  C4 as stated fails: the user \<open>2\<close> appears first in the input, the users \<open>1\<close> and \<open>2\<close>
  have one message each, and the ranked list has the user \<open>1\<close> before the user \<open>2\<close>.
\<close>

theorem ranking_first_seen_counterexample:
  "map userId numeric_senders = [''2'', ''1'']
   \<and> map_sum id (\<lambda>r. map (\<lambda>s. (stat_userId s, messageCount s)) (report_userStats r))
       (analyzeGroupMessages test_env test_config utc ''now'' numeric_senders ''g''
          (Inr YNull) (Inr YNull) (Inr YNull))
     = Inr [(''1'', 1), (''2'', 1)]"
proof -
  from numeric_senders_users obtain a b
    where stats: "calculateBasicStats utc numeric_senders = Inr (finish (run utc numeric_senders))"
      and users: "userStats (finish (run utc numeric_senders)) = [(''1'', a), (''2'', b)]"
      and ids: "stat_userId a = ''1''" "stat_userId b = ''2''"
      and counts: "messageCount a = 1" "messageCount b = 1"
    by blast
  from analyze_users [OF stats, of test_env test_config "''now''" "''g''" "Inr YNull" "Inr YNull" "Inr YNull"]
  obtain r where res: "analyzeGroupMessages test_env test_config utc ''now'' numeric_senders ''g''
        (Inr YNull) (Inr YNull) (Inr YNull) = Inr r"
    and ranked: "report_userStats r = [a, b]"
    by (auto simp: users sort_users_def counts slice0_def test_config_def)
  show ?thesis
    by (simp add: res ranked ids counts) (simp add: numeric_senders_def test_message_def)
qed

lemma named_senders_users:
  "\<exists>a b c. calculateBasicStats utc named_senders = Inr (finish (run utc named_senders))
     \<and> userStats (finish (run utc named_senders)) = [(''7'', c), (''bob'', a), (''alice'', b)]
     \<and> stat_userId a = ''bob'' \<and> stat_userId b = ''alice'' \<and> stat_userId c = ''7''
     \<and> messageCount a = 1 \<and> messageCount b = 1 \<and> messageCount c = 2"
proof -
  have ok: "\<not> (\<exists>m \<in> set named_senders. inherited (userId m))"
    by (simp add: named_senders_def test_message_def inherited_def object_prototype_keys_def)
  then have "calculateBasicStats utc named_senders = Inr (finish (run utc named_senders))"
    by (simp only: calculateBasicStats_eq if_False)
  then show ?thesis
    by (simp add: named_senders_def run_def step_def finish_def initial_stats_def obj_set_def
          key_before_def array_index_examples apply_msg_def compute_ratios_def
          test_message_def getInitialUserStats_def)
qed

theorem ranking_order_witness:
  "map_sum id (\<lambda>r. map (\<lambda>s. (stat_userId s, messageCount s)) (report_userStats r))
       (analyzeGroupMessages test_env test_config utc ''now'' named_senders ''g''
          (Inr YNull) (Inr YNull) (Inr YNull))
     = Inr [(''7'', 2), (''bob'', 1), (''alice'', 1)]
   \<and> enum_before named_senders ''bob'' ''alice''
   \<and> first_pos ''bob'' named_senders = 0 \<and> first_pos ''alice'' named_senders = 1"
proof -
  from named_senders_users obtain a b c
    where stats: "calculateBasicStats utc named_senders = Inr (finish (run utc named_senders))"
      and users: "userStats (finish (run utc named_senders)) = [(''7'', c), (''bob'', a), (''alice'', b)]"
      and ids: "stat_userId a = ''bob''" "stat_userId b = ''alice''" "stat_userId c = ''7''"
      and counts: "messageCount a = 1" "messageCount b = 1" "messageCount c = 2"
    by blast
  from analyze_users [OF stats, of test_env test_config "''now''" "''g''" "Inr YNull" "Inr YNull" "Inr YNull"]
  obtain r where res: "analyzeGroupMessages test_env test_config utc ''now'' named_senders ''g''
        (Inr YNull) (Inr YNull) (Inr YNull) = Inr r"
    and ranked: "report_userStats r = [c, a, b]"
    by (auto simp: users sort_users_def counts slice0_def test_config_def)
  have "(1::nat) < 2" "2 < length (report_userStats r)"
    by (simp_all add: ranked)
  from ranking_order [OF res this] have "enum_before named_senders ''bob'' ''alice''"
    by (simp add: ranked ids counts)
  moreover have "first_pos ''bob'' named_senders = 0" "first_pos ''alice'' named_senders = 1"
    by (simp_all add: first_pos_def named_senders_def test_message_def)
  ultimately show ?thesis
    by (simp add: res ranked ids counts)
qed

section \<open>Analysis service: proofs\<close>

text \<open>
  Where the statistics pass returns, the failures of the extraction tasks are isolated:
  however each of the three tasks settles, the analysis returns a report; the field of
  a task that failed is the empty list, the field of a task that succeeded is its
  value, and every other field is the same for all outcomes of the three tasks, so the
  same as when none of them fails.
\<close>

lemma extraction_failures_isolated:
  "calculateBasicStats tz ms = Inr stats \<Longrightarrow>
   \<exists>r. analyzeGroupMessages ev cfg tz now ms gid t u q = Inr r
     \<and> topics r = (case t of Inl e \<Rightarrow> YSeq [] | Inr v \<Rightarrow> v)
     \<and> userTitles r = (case u of Inl e \<Rightarrow> YSeq [] | Inr v \<Rightarrow> v)
     \<and> goldenQuotes r = (case q of Inl e \<Rightarrow> YSeq [] | Inr v \<Rightarrow> v)
     \<and> totalMessages r = length ms
     \<and> report_totalChars r = totalChars stats
     \<and> emojiCount r = totalEmojiCount stats
     \<and> totalParticipants r = length (userStats stats)
     \<and> (\<forall>t' u' q'. analyzeGroupMessages ev cfg tz now ms gid t' u' q'
            = Inr (r\<lparr>topics := recover t', userTitles := recover u', goldenQuotes := recover q'\<rparr>))"
  by (simp add: analyzeGroupMessages_def Let_def recover_def sort_users_def)

lemma extraction_failures_isolated_example:
  "map_sum id
     (\<lambda>r. (topics r, userTitles r, goldenQuotes r, totalMessages r, report_totalChars r,
            emojiCount r, totalParticipants r))
     (analyzeGroupMessages test_env test_config utc ''now'' [image_message] ''g''
        (Inl (TransportError 500 ''busy'')) (Inl NoUsableModel) (Inr (YSeq [YStr ''quote''])))
   = Inr (YSeq [], YSeq [], YSeq [YStr ''quote''], 1, 5, 1, 1)"
proof -
  have ok: "\<not> (\<exists>m \<in> set [image_message]. inherited (userId m))"
    by (simp add: image_message_def inherited_def object_prototype_keys_def)
  then have stats: "calculateBasicStats utc [image_message] = Inr (finish (run utc [image_message]))"
    by (simp only: calculateBasicStats_eq if_False)
  have totals: "totalChars (finish (run utc [image_message])) = 5"
    "totalEmojiCount (finish (run utc [image_message])) = 1"
    "length (userStats (finish (run utc [image_message]))) = 1"
    by (simp_all add: finish_def run_def step_def initial_stats_def obj_set_def msg_chars_def
          msg_emojis_def msg_elements_def pure_text_def emoji_count_def image_message_def)
  from extraction_failures_isolated [OF stats, of test_env test_config "''now''" "''g''"
      "Inl (TransportError 500 ''busy'')" "Inl NoUsableModel" "Inr (YSeq [YStr ''quote''])"]
  show ?thesis
    by (auto simp: totals)
qed

text \<open>
  The analysis returns a report exactly when the statistics pass returns, whatever the
  three tasks do.
\<close>

lemma analysis_returns_iff:
  "(\<exists>r. analyzeGroupMessages ev cfg tz now ms gid t u q = Inr r)
     \<longleftrightarrow> \<not> (\<exists>m \<in> set ms. inherited (userId m))"
  by (simp add: analyzeGroupMessages_def calculateBasicStats_eq Let_def)

text \<open>
  C1.  The analysis does not return a report for every input: for a message with the
  sender id \<open>constructor\<close> the statistics pass raises a \<open>TypeError\<close> before the
  extraction tasks start, so the analysis raises it too, however the three tasks
  settle.
\<close>

theorem analysis_raises_on_inherited_sender_id:
  "analyzeGroupMessages ev cfg tz now [test_message ''constructor'' 0] gid t u q = Inl TypeError"
  by (simp add: analyzeGroupMessages_def calculateBasicStats_def process_message_def obj_get_def
        initial_stats_def test_message_def object_prototype_keys_def)

end
